theory Spec2Isabelle
  imports Complex_Main "HOL-Library.AList"
begin

section \<open>Strings and dictionaries\<close>

text \<open>
  A Python \<open>str\<close> is modelled as a \<open>string\<close>, whose characters are the code points
  below 256. Trimming is exact on them. Functions of Python that reach beyond them
  (\<open>str.upper\<close>, which sends some of these characters to several or to wider ones, the
  matcher of \<open>re\<close>, \<open>unidecode\<close>) are parameters of the model wherever they are applied to
  arbitrary text. A \<open>Dict[str, str]\<close> keeps its insertion order, which decides the order of the
  decision log, so it is an association list whose keys are kept distinct by
  \<open>dict_set\<close>: assigning to a key that is present keeps its position.
\<close>

type_synonym dict = "(string \<times> string) list"

definition is_space :: "char \<Rightarrow> bool" where
  \<comment> \<open>\<open>str.isspace\<close> below 256: tab, LF, VT, FF, CR, the separators 28..31, the blank,
      NEL (U+0085) and the no-break space (U+00A0)\<close>
  "is_space c = (of_char c \<in> {9, 10, 11, 12, 13, 28, 29, 30, 31, 32, 133, 160 :: nat})"

definition strip :: "string \<Rightarrow> string" where
  "strip s = rev (dropWhile is_space (rev (dropWhile is_space s)))"

definition ascii_upper_char :: "char \<Rightarrow> char" where
  \<comment> \<open>\<open>str.upper\<close> on an ASCII character\<close>
  "ascii_upper_char c = (let n = (of_char c :: nat) in if 97 \<le> n \<and> n \<le> 122 then char_of (n - 32) else c)"

definition ascii_upper :: "string \<Rightarrow> string" where
  \<comment> \<open>\<open>str.upper\<close> on ASCII text, the only text it is applied to: the result of
      \<open>unidecode\<close> in the normaliser, and the values of the examples\<close>
  "ascii_upper s = map ascii_upper_char s"

definition keys :: "dict \<Rightarrow> string set" where
  "keys d = fst ` set d"

definition has_key :: "dict \<Rightarrow> string \<Rightarrow> bool" where
  \<comment> \<open>\<open>k in d\<close>\<close>
  "has_key d k = (map_of d k \<noteq> None)"

definition get_or_empty :: "dict \<Rightarrow> string \<Rightarrow> string" where
  \<comment> \<open>\<open>d.get(name) or ""\<close>\<close>
  "get_or_empty d name = (case map_of d name of None \<Rightarrow> [] | Some v \<Rightarrow> v)"

primrec dict_set :: "dict \<Rightarrow> string \<Rightarrow> string \<Rightarrow> dict" where
  \<comment> \<open>\<open>d[k] = v\<close>\<close>
  "dict_set [] k v = [(k, v)]"
| "dict_set (p # ps) k v = (if fst p = k then (k, v) # ps else p # dict_set ps k v)"

definition dict_update :: "dict \<Rightarrow> dict \<Rightarrow> dict" where
  \<comment> \<open>\<open>d.update(other)\<close>\<close>
  "dict_update d other = fold (\<lambda>(k, v) acc. dict_set acc k v) other d"

definition setdefault :: "dict \<Rightarrow> string \<Rightarrow> string \<Rightarrow> dict" where
  \<comment> \<open>\<open>d.setdefault(k, v)\<close>, for its effect on \<open>d\<close>\<close>
  "setdefault d k v = (if has_key d k then d else d @ [(k, v)])"

section \<open>Regular expressions on ASCII text\<close>

text \<open>
  The patterns of the repository, each as the function that decides whether it matches
  at a position and how many characters the match takes, following the backtracking
  order of Python's \<open>re\<close>. A position is the character before it (\<open>None\<close> at the start)
  and the rest of the text. On ASCII text \<^verbatim>\<open>\d\<close> is 0-9, \<^verbatim>\<open>\w\<close> is A-Z, a-z, 0-9
  and the underscore, \<^verbatim>\<open>\s\<close> is \<open>is_space\<close>, and \<^verbatim>\<open>\b\<close> holds where exactly one
  of the two neighbours is a \<^verbatim>\<open>\w\<close> character.
\<close>

datatype regex =
  CURP_REGEX | YEAR_REGEX | DATE_REGEX | VIG_REGEX | SECCION_REGEX | SEXO_REGEX
  | CLAVE_ELECTOR_REGEX
  | WORDS string  \<comment> \<open>a literal text between two \<^verbatim>\<open>\b\<close>, as in \<^verbatim>\<open>\bCURP\b\<close>\<close>

definition is_digit :: "char \<Rightarrow> bool" where
  "is_digit c = (48 \<le> (of_char c :: nat) \<and> (of_char c :: nat) \<le> 57)"

definition is_AZ :: "char \<Rightarrow> bool" where
  "is_AZ c = (65 \<le> (of_char c :: nat) \<and> (of_char c :: nat) \<le> 90)"

definition is_AZ09 :: "char \<Rightarrow> bool" where
  "is_AZ09 c = (is_AZ c \<or> is_digit c)"

definition is_word :: "char \<Rightarrow> bool" where
  "is_word c = (is_AZ c \<or> is_digit c \<or> c = CHR ''_''
                \<or> (97 \<le> (of_char c :: nat) \<and> (of_char c :: nat) \<le> 122))"

definition boundary :: "char option \<Rightarrow> string \<Rightarrow> bool" where
  \<comment> \<open>\<^verbatim>\<open>\b\<close> between the character \<open>prev\<close> and the head of \<open>rest\<close>\<close>
  "boundary prev rest =
     ((case prev of None \<Rightarrow> False | Some c \<Rightarrow> is_word c)
      \<noteq> (case rest of [] \<Rightarrow> False | c # _ \<Rightarrow> is_word c))"

definition bounded_at :: "(string \<Rightarrow> bool) \<Rightarrow> nat \<Rightarrow> char option \<Rightarrow> string \<Rightarrow> bool" where
  \<comment> \<open>\<^verbatim>\<open>\b\<close>, then \<open>n\<close> characters (\<open>n > 0\<close>) that satisfy \<open>P\<close>, then \<^verbatim>\<open>\b\<close>\<close>
  "bounded_at P n prev s =
     (boundary prev s \<and> n \<le> length s \<and> P (take n s)
      \<and> boundary (Some (s ! (n - 1))) (drop n s))"

definition is_year4 :: "string \<Rightarrow> bool" where
  \<comment> \<open>\<^verbatim>\<open>(19|20)\d{2}\<close>\<close>
  "is_year4 m = (length m = 4 \<and> (take 2 m = ''19'' \<or> take 2 m = ''20'')
                 \<and> list_all is_digit (drop 2 m))"

definition is_date10 :: "string \<Rightarrow> bool" where
  \<comment> \<open>\<^verbatim>\<open>\d{2}[\/\-]\d{2}[\/\-](19|20)\d{2}\<close>\<close>
  "is_date10 m =
     (length m = 10 \<and> list_all is_digit (take 2 m)
      \<and> (m ! 2 = CHR ''/'' \<or> m ! 2 = CHR ''-'')
      \<and> list_all is_digit (take 2 (drop 3 m))
      \<and> (m ! 5 = CHR ''/'' \<or> m ! 5 = CHR ''-'')
      \<and> is_year4 (drop 6 m))"

definition curp_states :: "string list" where
  "curp_states =
     [''AS'', ''BC'', ''BS'', ''CC'', ''CS'', ''CH'', ''CL'', ''CM'', ''CO'', ''DF'', ''DG'',
      ''GJ'', ''GT'', ''GR'', ''HG'', ''JC'', ''MC'', ''MN'', ''MS'', ''NT'', ''NL'', ''OC'',
      ''PL'', ''QT'', ''QR'', ''SP'', ''SL'', ''SR'', ''TC'', ''TS'', ''TL'', ''VZ'', ''YN'',
      ''ZS'', ''NE'']"

definition is_curp18 :: "string \<Rightarrow> bool" where
  \<comment> \<open>\<^verbatim>\<open>[A-Z]{4}\d{6}[HM](AS|BC|...|NE)[A-Z]{3}[0-9A-Z]\d\<close>\<close>
  "is_curp18 m =
     (length m = 18 \<and> list_all is_AZ (take 4 m) \<and> list_all is_digit (take 6 (drop 4 m))
      \<and> (m ! 10 = CHR ''H'' \<or> m ! 10 = CHR ''M'')
      \<and> take 2 (drop 11 m) \<in> set curp_states
      \<and> list_all is_AZ (take 3 (drop 13 m)) \<and> is_AZ09 (m ! 16) \<and> is_digit (m ! 17))"

definition first_length :: "(nat \<Rightarrow> bool) \<Rightarrow> nat list \<Rightarrow> nat option" where
  "first_length ok_len ns = find ok_len ns"

definition vig_at :: "char option \<Rightarrow> string \<Rightarrow> nat option" where
  \<comment> \<open>\<^verbatim>\<open>\b(19|20)\d{2}(?:\s*[-D]\s*(19|20)\d{2})?\b\<close>, where \<open>D\<close> stands for the en dash
      U+2013, which no ASCII text contains; the optional group is tried first\<close>
  "vig_at prev s =
     (if boundary prev s \<and> 4 \<le> length s \<and> is_year4 (take 4 s) then
        (let short = (if boundary (Some (s ! 3)) (drop 4 s) then Some 4 else None);
             k1 = length (takeWhile is_space (drop 4 s));
             r1 = dropWhile is_space (drop 4 s)
         in case r1 of
              [] \<Rightarrow> short
            | d # r2 \<Rightarrow>
                (let k2 = length (takeWhile is_space r2);
                     r3 = dropWhile is_space r2
                 in if d = CHR ''-'' \<and> 4 \<le> length r3 \<and> is_year4 (take 4 r3)
                       \<and> boundary (Some (r3 ! 3)) (drop 4 r3)
                    then Some (4 + k1 + 1 + k2 + 4) else short))
      else None)"

fun match_at :: "regex \<Rightarrow> char option \<Rightarrow> string \<Rightarrow> nat option" where
  "match_at CURP_REGEX prev s =
     (if 18 \<le> length s \<and> is_curp18 (take 18 s) then Some 18 else None)"
| "match_at YEAR_REGEX prev s = (if bounded_at is_year4 4 prev s then Some 4 else None)"
| "match_at DATE_REGEX prev s = (if bounded_at is_date10 10 prev s then Some 10 else None)"
| "match_at VIG_REGEX prev s = vig_at prev s"
| "match_at SECCION_REGEX prev s =
     first_length (\<lambda>n. bounded_at (list_all is_digit) n prev s) [5, 4, 3, 2, 1]"
| "match_at SEXO_REGEX prev s =
     (if bounded_at (\<lambda>m. m = ''H'') 1 prev s then Some 1
      else if bounded_at (\<lambda>m. m = ''M'') 1 prev s then Some 1
      else if bounded_at (\<lambda>m. m = ''HOMBRE'') 6 prev s then Some 6
      else if bounded_at (\<lambda>m. m = ''MUJER'') 5 prev s then Some 5
      else None)"
| "match_at CLAVE_ELECTOR_REGEX prev s =
     first_length (\<lambda>n. bounded_at (list_all is_AZ09) n prev s)
       [20, 19, 18, 17, 16, 15, 14, 13, 12, 11, 10, 9, 8]"
| "match_at (WORDS w) prev s =
     (if bounded_at (\<lambda>m. m = w) (length w) prev s then Some (length w) else None)"

fun search_from :: "regex \<Rightarrow> char option \<Rightarrow> string \<Rightarrow> string option" where
  \<comment> \<open>the leftmost match at or after this position\<close>
  "search_from p prev [] = (case match_at p prev [] of None \<Rightarrow> None | Some n \<Rightarrow> Some [])"
| "search_from p prev (c # cs) =
     (case match_at p prev (c # cs) of
        Some n \<Rightarrow> Some (take n (c # cs))
      | None \<Rightarrow> search_from p (Some c) cs)"

definition ascii_search :: "regex \<Rightarrow> string \<Rightarrow> string option" where
  \<comment> \<open>\<open>m.group(0)\<close> of \<open>m = re.search(pat, s)\<close>, \<open>None\<close> when there is no match\<close>
  "ascii_search p s = search_from p None s"

definition ascii_matches :: "regex \<Rightarrow> string \<Rightarrow> bool" where
  \<comment> \<open>\<open>bool(re.search(pat, s))\<close>\<close>
  "ascii_matches p s = (ascii_search p s \<noteq> None)"

section \<open>Merge engine (services/ocr\_merge.py)\<close>

text \<open>
  The validation patterns are the module's regular-expression constants; the literal
  \<^verbatim>\<open>\b[A-Z0-9]{8,20}\b\<close> that \<open>smart_merge_fields\<close> passes for \<open>clave_elector\<close> is
  named \<open>CLAVE_ELECTOR_REGEX\<close> here. Each of them is a non-empty string, so the test
  \<open>if pat\<close> of the source holds exactly when a pattern is given. The matcher of Python's
  \<open>re\<close> library is a parameter \<open>re_search\<close> of the model: \<open>re_search pat s\<close> stands for
  \<open>bool(re.search(pat, s))\<close>. The values that are merged are arbitrary text, so
  \<open>str.upper\<close> is a parameter \<open>str_upper\<close> as well.
\<close>

record decision =
  field :: string
  chosen_from :: string
  val :: string

definition ok ::
  "(string \<Rightarrow> string) \<Rightarrow> (regex \<Rightarrow> string \<Rightarrow> bool) \<Rightarrow> regex option \<Rightarrow> string \<Rightarrow> bool" where
  "ok str_upper re_search pat v =
     (if v = [] then False
      else case pat of None \<Rightarrow> True | Some p \<Rightarrow> re_search p (str_upper v))"

definition choose_field ::
  "(string \<Rightarrow> string) \<Rightarrow> (regex \<Rightarrow> string \<Rightarrow> bool) \<Rightarrow> string \<Rightarrow> regex option \<Rightarrow> dict \<Rightarrow> dict \<Rightarrow> dict
     \<Rightarrow> dict \<times> decision list \<Rightarrow> dict \<times> decision list" where
  "choose_field str_upper re_search name pat fields_tpl fields_auto fields_text st =
     (let t = strip (get_or_empty fields_tpl name);
          a = strip (get_or_empty fields_auto name);
          x = strip (get_or_empty fields_text name);
          (src, v) =
            (if pat \<noteq> None then
               (if ok str_upper re_search pat t then (''template'', t)
                else if ok str_upper re_search pat a then (''auto'', a)
                else if ok str_upper re_search pat x then (''text'', x)
                else if t \<noteq> [] then (''template'', t)
                else if a \<noteq> [] then (''auto'', a)
                else if x \<noteq> [] then (''text'', x)
                else (''none'', []))
             else (if t \<noteq> [] then (''template'', t)
                   else if a \<noteq> [] then (''auto'', a)
                   else (''text'', x)))
      in (dict_set (fst st) name v,
          snd st @ [\<lparr>field = name, chosen_from = src, val = v\<rparr>]))"

definition chosen ::
  "(string \<Rightarrow> string) \<Rightarrow> (regex \<Rightarrow> string \<Rightarrow> bool) \<Rightarrow> string \<Rightarrow> regex option \<Rightarrow> dict \<Rightarrow> dict \<Rightarrow> dict
     \<Rightarrow> string \<times> string" where
  \<comment> \<open>the decision of \<open>choose_field\<close> alone: the pair \<open>(src, val)\<close> it records\<close>
  "chosen str_upper re_search name pat fields_tpl fields_auto fields_text =
     (let d = last (snd (choose_field str_upper re_search name pat fields_tpl fields_auto fields_text
                           ([], [])))
      in (chosen_from d, val d))"

definition expected_keys :: "string \<Rightarrow> string list" where
  \<comment> \<open>\<open>expected_keys_map.get(tipo_documento, [])\<close>\<close>
  "expected_keys tipo_documento =
     (if tipo_documento = ''ine'' then
        [''nombre'', ''sexo'', ''domicilio'', ''clave_elector'', ''curp'', ''anio_registro'',
         ''fecha_nacimiento'', ''seccion'', ''vigencia'']
      else if tipo_documento = ''curp'' then [''curp'', ''nombre'', ''entidad_registro'']
      else if tipo_documento = ''acta'' then
        [''curp'', ''entidad_registro'', ''municipio_registro'', ''nombres'',
         ''primer_apellido'', ''segundo_apellido'', ''sexo'', ''fecha_nacimiento'',
         ''lugar_nacimiento'']
      else if tipo_documento = ''otros'' then
        [''titulo'', ''fecha_documento'', ''rfc_detectado'', ''curp_detectada'', ''folio'',
         ''emisor'']
      else [])"

definition ine_calls :: "(string \<times> regex option) list" where
  \<comment> \<open>the nine calls of \<open>_choose\<close> in the branch for \<open>ine\<close>, in order\<close>
  "ine_calls =
     [(''nombre'', None), (''sexo'', Some SEXO_REGEX), (''domicilio'', None),
      (''clave_elector'', Some CLAVE_ELECTOR_REGEX), (''curp'', Some CURP_REGEX),
      (''anio_registro'', Some YEAR_REGEX), (''fecha_nacimiento'', Some DATE_REGEX),
      (''seccion'', Some SECCION_REGEX), (''vigencia'', Some VIG_REGEX)]"

definition curp_calls :: "(string \<times> regex option) list" where
  "curp_calls = [(''curp'', Some CURP_REGEX), (''nombre'', None), (''entidad_registro'', None)]"

definition acta_calls :: "(string \<times> regex option) list" where
  "acta_calls =
     [(''curp'', Some CURP_REGEX), (''entidad_registro'', None), (''municipio_registro'', None),
      (''nombres'', None), (''primer_apellido'', None), (''segundo_apellido'', None),
      (''sexo'', Some SEXO_REGEX), (''fecha_nacimiento'', Some DATE_REGEX),
      (''lugar_nacimiento'', None)]"

definition choose_all ::
  "(string \<Rightarrow> string) \<Rightarrow> (regex \<Rightarrow> string \<Rightarrow> bool) \<Rightarrow> (string \<times> regex option) list \<Rightarrow> dict \<Rightarrow> dict \<Rightarrow> dict
     \<Rightarrow> dict \<times> decision list \<Rightarrow> dict \<times> decision list" where
  "choose_all str_upper re_search calls fields_tpl fields_auto fields_text st =
     fold (\<lambda>(k, pat). choose_field str_upper re_search k pat fields_tpl fields_auto fields_text) calls st"

definition otros_source :: "dict \<Rightarrow> dict \<Rightarrow> dict \<Rightarrow> string \<Rightarrow> string" where
  "otros_source fields_tpl fields_auto fields_text k =
     (if has_key fields_text k then ''text''
      else if has_key fields_auto k then ''auto''
      else if has_key fields_tpl k then ''template''
      else ''none'')"

definition otros_step ::
  "dict \<Rightarrow> dict \<Rightarrow> dict \<Rightarrow> string \<times> string \<Rightarrow> dict \<times> decision list \<Rightarrow> dict \<times> decision list" where
  "otros_step fields_tpl fields_auto fields_text kv st =
     (dict_set (fst st) (fst kv) (snd kv),
      snd st @ [\<lparr>field = fst kv,
                 chosen_from = otros_source fields_tpl fields_auto fields_text (fst kv),
                 val = snd kv\<rparr>])"

definition smart_merge_fields ::
  "(string \<Rightarrow> string) \<Rightarrow> (regex \<Rightarrow> string \<Rightarrow> bool) \<Rightarrow> string \<Rightarrow> dict \<Rightarrow> dict \<Rightarrow> dict \<Rightarrow> dict \<times> decision list" where
  "smart_merge_fields str_upper re_search tipo_documento fields_tpl fields_auto fields_text =
     (let st =
        (if tipo_documento = ''ine'' then
           choose_all str_upper re_search ine_calls fields_tpl fields_auto fields_text ([], [])
         else if tipo_documento = ''curp'' then
           choose_all str_upper re_search curp_calls fields_tpl fields_auto fields_text ([], [])
         else if tipo_documento = ''acta'' then
           choose_all str_upper re_search acta_calls fields_tpl fields_auto fields_text ([], [])
         else if tipo_documento = ''otros'' then
           (let merged = dict_update (dict_update (dict_update [] fields_tpl) fields_auto)
                           fields_text
            in fold (otros_step fields_tpl fields_auto fields_text) merged ([], []))
         else ([], []))
      in (fold (\<lambda>k fields. setdefault fields k []) (expected_keys tipo_documento) (fst st),
          snd st))"

definition field_patterns :: "string \<Rightarrow> (string \<times> regex option) list" where
  \<comment> \<open>the fields \<open>smart_merge_fields\<close> resolves for a fixed-field type, each with the
      pattern it passes to \<open>choose_field\<close>\<close>
  "field_patterns tipo_documento =
     (if tipo_documento = ''ine'' then ine_calls
      else if tipo_documento = ''curp'' then curp_calls
      else if tipo_documento = ''acta'' then acta_calls
      else [])"

definition merged_of :: "dict \<Rightarrow> dict \<Rightarrow> dict \<Rightarrow> dict" where
  \<comment> \<open>the dictionary \<open>merged\<close> of the branch for \<open>otros\<close>\<close>
  "merged_of fields_tpl fields_auto fields_text =
     dict_update (dict_update (dict_update [] fields_tpl) fields_auto) fields_text"


section \<open>Text normaliser and document type detector (services/parsers.py)\<close>

text \<open>
  \<open>unidecode\<close> belongs to a library outside the repository and is a parameter \<open>ud\<close> of
  the model. It returns ASCII text, the text on which \<open>ascii_upper\<close>, \<open>is_space\<close> and the
  matchers above are exact.
\<close>

fun collapse_ws :: "bool \<Rightarrow> string \<Rightarrow> string" where
  \<comment> \<open>\<^verbatim>\<open>re.sub(r"\s+", " ", s)\<close>, scanning from the left; the flag tells that the run of
      white space that is being read has been replaced already\<close>
  "collapse_ws in_run [] = []"
| "collapse_ws in_run (c # cs) =
     (if is_space c then (if in_run then collapse_ws True cs else CHR '' '' # collapse_ws True cs)
      else c # collapse_ws False cs)"

definition norm_text :: "(string \<Rightarrow> string) \<Rightarrow> string \<Rightarrow> string" where
  \<comment> \<open>\<open>_norm\<close> of parsers.py and \<open>_norm_text\<close> of extractor.py, which are the same function\<close>
  "norm_text ud s = strip (collapse_ws False (ascii_upper (ud s)))"

definition detect_type :: "(string \<Rightarrow> string) \<Rightarrow> string \<Rightarrow> string" where
  "detect_type ud text =
     (let T = norm_text ud text in
      if ascii_matches (WORDS ''ACTA DE NACIMIENTO'') T
         \<or> ascii_matches (WORDS ''OFICIAL DEL REGISTRO'') T then ''acta''
      else if ascii_matches (WORDS ''INSTITUTO NACIONAL ELECTORAL'') T
         \<or> ascii_matches (WORDS ''CREDENCIAL PARA VOTAR'') T then ''ine''
      else if ascii_matches (WORDS ''CLAVE UNICA DE REGISTRO DE POBLACION'') T
         \<or> ascii_matches (WORDS ''CURP'') T then ''curp''
      else ''auto'')"

definition contains_words :: "string \<Rightarrow> string \<Rightarrow> bool" where
  \<comment> \<open>the text \<open>t\<close> contains \<open>w\<close> as whole words: an occurrence of \<open>w\<close> that neither
      follows nor precedes a letter, a digit or an underscore\<close>
  "contains_words w t =
     (\<exists>pre post. t = pre @ w @ post
        \<and> (pre = [] \<or> \<not> is_word (last pre)) \<and> (post = [] \<or> \<not> is_word (hd post)))"

definition ascii_only :: "string \<Rightarrow> string" where
  \<comment> \<open>an instance of \<open>ud\<close> for the examples: it agrees with \<open>unidecode\<close> on ASCII text\<close>
  "ascii_only s = filter (\<lambda>c. (of_char c :: nat) < 128) s"

section \<open>Geometry coercer (services/parsers.py)\<close>

text \<open>
  The values \<open>_coerce_geom\<close> can receive are those of an OCR export: \<open>None\<close>, booleans,
  integers, floats, strings, lists, tuples and dictionaries with string keys. A float is
  a real number, an infinity or NaN; the coercer only converts, compares and clamps, so no
  rounding of arithmetic is involved. An integer keeps its exact value when it is
  converted: a double rounds integers beyond \<open>2^53\<close>, and every such value is clamped to
  \<open>0.0\<close> or \<open>1.0\<close> whatever the rounding. The parser of \<open>float\<close> for strings is a
  parameter \<open>sf\<close>: \<open>sf s\<close> is \<open>None\<close> where \<open>float(s)\<close> raises \<open>ValueError\<close>.
\<close>

datatype pyfloat = NaN | NegInf | Fin real | PosInf

datatype pyval =
  PNone | PBool bool | PInt int | PFloat pyfloat | PStr string
  | PList "pyval list" | PTuple "pyval list" | PDict "(string \<times> pyval) list"

datatype py_error = TypeError | ValueError | OverflowError

fun fle :: "pyfloat \<Rightarrow> pyfloat \<Rightarrow> bool" where
  \<comment> \<open>\<open>a <= b\<close> on floats: false as soon as one side is NaN\<close>
  "fle NaN b = False"
| "fle a NaN = False"
| "fle NegInf b = True"
| "fle a PosInf = True"
| "fle (Fin a) (Fin b) = (a \<le> b)"
| "fle PosInf b = False"
| "fle (Fin a) NegInf = False"

definition flt :: "pyfloat \<Rightarrow> pyfloat \<Rightarrow> bool" where
  \<comment> \<open>\<open>a < b\<close> on floats\<close>
  "flt a b = (fle a b \<and> \<not> fle b a)"

definition py_min :: "pyfloat \<Rightarrow> pyfloat \<Rightarrow> pyfloat" where
  \<comment> \<open>\<open>min(a, b)\<close>: the second argument only where it is smaller\<close>
  "py_min a b = (if flt b a then b else a)"

definition py_max :: "pyfloat \<Rightarrow> pyfloat \<Rightarrow> pyfloat" where
  \<comment> \<open>\<open>max(a, b)\<close>: the second argument only where it is greater\<close>
  "py_max a b = (if flt a b then b else a)"

definition float_of_int :: "int \<Rightarrow> py_error + pyfloat" where
  \<comment> \<open>\<open>float(n)\<close>: integers that round to \<open>2^1024\<close> or beyond raise \<open>OverflowError\<close>\<close>
  "float_of_int n =
     (if \<bar>n\<bar> \<ge> 2 ^ 1024 - 2 ^ 970 then Inl OverflowError else Inr (Fin (of_int n)))"

fun py_float :: "(string \<Rightarrow> pyfloat option) \<Rightarrow> pyval \<Rightarrow> py_error + pyfloat" where
  \<comment> \<open>\<open>float(x)\<close>\<close>
  "py_float sf PNone = Inl TypeError"
| "py_float sf (PBool b) = Inr (Fin (if b then 1 else 0))"
| "py_float sf (PInt n) = float_of_int n"
| "py_float sf (PFloat f) = Inr f"
| "py_float sf (PStr s) = (case sf s of None \<Rightarrow> Inl ValueError | Some f \<Rightarrow> Inr f)"
| "py_float sf (PList xs) = Inl TypeError"
| "py_float sf (PTuple xs) = Inl TypeError"
| "py_float sf (PDict kvs) = Inl TypeError"

definition to_float_default :: "(string \<Rightarrow> pyfloat option) \<Rightarrow> pyval \<Rightarrow> pyfloat \<Rightarrow> pyfloat" where
  \<comment> \<open>\<open>_to_float(x, default)\<close> with a float as default\<close>
  "to_float_default sf x d = (case py_float sf x of Inl e \<Rightarrow> d | Inr v \<Rightarrow> v)"

definition to_float_none :: "(string \<Rightarrow> pyfloat option) \<Rightarrow> pyval \<Rightarrow> pyfloat option" where
  \<comment> \<open>\<open>_to_float(x, None)\<close>\<close>
  "to_float_none sf x = (case py_float sf x of Inl e \<Rightarrow> None | Inr v \<Rightarrow> Some v)"

fun is_number :: "pyval \<Rightarrow> bool" where
  \<comment> \<open>\<open>isinstance(v, (int, float))\<close>; \<open>bool\<close> is a subclass of \<open>int\<close>\<close>
  "is_number (PBool b) = True"
| "is_number (PInt n) = True"
| "is_number (PFloat f) = True"
| "is_number v = False"

fun seq_items :: "pyval \<Rightarrow> pyval list option" where
  \<comment> \<open>the items of \<open>v\<close> when \<open>isinstance(v, (list, tuple))\<close>\<close>
  "seq_items (PList xs) = Some xs"
| "seq_items (PTuple xs) = Some xs"
| "seq_items v = None"

definition is_pair :: "pyval \<Rightarrow> bool" where
  \<comment> \<open>\<open>isinstance(v, (list, tuple)) and len(v) == 2\<close>\<close>
  "is_pair v = (case seq_items v of None \<Rightarrow> False | Some xs \<Rightarrow> length xs = 2)"

definition item :: "pyval \<Rightarrow> nat \<Rightarrow> pyval" where
  \<comment> \<open>\<open>v[i]\<close>, used on pairs with \<open>i < 2\<close> only\<close>
  "item v i = (case seq_items v of None \<Rightarrow> PNone | Some xs \<Rightarrow> xs ! i)"

fun flatten :: "pyval \<Rightarrow> pyval list" where
  \<comment> \<open>the list \<open>flat\<close> that \<open>_flatten(x)\<close> appends to\<close>
  "flatten (PList xs) = concat (map flatten xs)"
| "flatten (PTuple xs) = concat (map flatten xs)"
| "flatten v = [v]"

fun floats :: "(string \<Rightarrow> pyfloat option) \<Rightarrow> pyval list \<Rightarrow> py_error + pyfloat list" where
  \<comment> \<open>\<open>map(float, geom)\<close>, consumed from the left: the first failure is raised\<close>
  "floats sf [] = Inr []"
| "floats sf (x # xs) =
     (case py_float sf x of
        Inl e \<Rightarrow> Inl e
      | Inr v \<Rightarrow> (case floats sf xs of Inl e \<Rightarrow> Inl e | Inr vs \<Rightarrow> Inr (v # vs)))"

definition clamp :: "pyfloat \<Rightarrow> pyfloat" where
  \<comment> \<open>\<open>max(0.0, min(1.0, float(v)))\<close>\<close>
  "clamp v = py_max (Fin 0) (py_min (Fin 1) v)"

definition order_clamp ::
  "pyfloat \<Rightarrow> pyfloat \<Rightarrow> pyfloat \<Rightarrow> pyfloat \<Rightarrow> pyfloat \<times> pyfloat \<times> pyfloat \<times> pyfloat" where
  \<comment> \<open>the end of \<open>_coerce_geom\<close>, from the four coordinates \<open>x0, y0, x1, y1\<close> on\<close>
  "order_clamp x0 y0 x1 y1 =
     (let (xmin, xmax) = (if fle x0 x1 then (x0, x1) else (x1, x0));
          (ymin, ymax) = (if fle y0 y1 then (y0, y1) else (y1, y0))
      in (clamp xmin, clamp ymin, clamp xmax, clamp ymax))"

definition dict_get :: "(string \<times> pyval) list \<Rightarrow> string \<Rightarrow> pyval" where
  \<comment> \<open>\<open>geom.get(key)\<close>\<close>
  "dict_get kvs key = (case map_of kvs key of None \<Rightarrow> PNone | Some v \<Rightarrow> v)"

definition corners_seq ::
  "(string \<Rightarrow> pyfloat option) \<Rightarrow> pyval list
     \<Rightarrow> py_error + pyfloat \<times> pyfloat \<times> pyfloat \<times> pyfloat" where
  \<comment> \<open>the coordinates \<open>x0, y0, x1, y1\<close> that the branch of \<open>_coerce_geom\<close> for a list or a
      tuple with the items \<open>xs\<close> assigns\<close>
  "corners_seq sf xs =
     (if length xs = 4 \<and> list_all is_number xs then
        (case floats sf xs of
           Inl e \<Rightarrow> Inl e
         | Inr vs \<Rightarrow> Inr (vs ! 0, vs ! 1, vs ! 2, vs ! 3))
      else if length xs = 2 \<and> list_all is_pair xs then
        Inr (to_float_default sf (item (xs ! 0) 0) (Fin 0),
             to_float_default sf (item (xs ! 0) 1) (Fin 0),
             to_float_default sf (item (xs ! 1) 0) (Fin 1),
             to_float_default sf (item (xs ! 1) 1) (Fin 1))
      else
        (let nums = List.map_filter (to_float_none sf) (concat (map flatten xs))
         in if length nums \<ge> 4
            then Inr (nums ! 0, nums ! 1, nums ! 2, nums ! 3)
            else Inr (Fin 0, Fin 0, Fin 1, Fin 1)))"

fun corners ::
  "(string \<Rightarrow> pyfloat option) \<Rightarrow> pyval \<Rightarrow> py_error + pyfloat \<times> pyfloat \<times> pyfloat \<times> pyfloat" where
  \<comment> \<open>the first half of \<open>_coerce_geom\<close>: the coordinates \<open>x0, y0, x1, y1\<close> as they are
      read, before they are ordered and clamped\<close>
  "corners sf (PDict kvs) =
     Inr (to_float_default sf (dict_get kvs ''x0'') (Fin 0),
          to_float_default sf (dict_get kvs ''y0'') (Fin 0),
          to_float_default sf (dict_get kvs ''x1'') (Fin 1),
          to_float_default sf (dict_get kvs ''y1'') (Fin 1))"
| "corners sf (PList xs) = corners_seq sf xs"
| "corners sf (PTuple xs) = corners_seq sf xs"
| "corners sf v = Inr (Fin 0, Fin 0, Fin 1, Fin 1)"

definition coerce_geom ::
  "(string \<Rightarrow> pyfloat option) \<Rightarrow> pyval \<Rightarrow> py_error + pyfloat \<times> pyfloat \<times> pyfloat \<times> pyfloat" where
  "coerce_geom sf geom =
     (case corners sf geom of
        Inl e \<Rightarrow> Inl e
      | Inr (x0, y0, x1, y1) \<Rightarrow> Inr (order_clamp x0 y0 x1 y1))"

definition unit_box :: "pyfloat \<times> pyfloat \<times> pyfloat \<times> pyfloat" where
  "unit_box = (Fin 0, Fin 0, Fin 1, Fin 1)"

definition numeric_leaves :: "(string \<Rightarrow> pyfloat option) \<Rightarrow> pyval \<Rightarrow> nat" where
  \<comment> \<open>how many leaves of the nested lists and tuples of \<open>v\<close> convert to a float\<close>
  "numeric_leaves sf v = length (List.map_filter (to_float_none sf) (flatten v))"

definition no_strings :: "string \<Rightarrow> pyfloat option" where
  \<comment> \<open>an instance of \<open>sf\<close> for inputs without strings\<close>
  "no_strings s = None"

fun number_of :: "pyval \<Rightarrow> real option" where
  \<comment> \<open>the number an integer or a finite float denotes\<close>
  "number_of (PInt n) = Some (of_int n)"
| "number_of (PFloat (Fin r)) = Some r"
| "number_of v = None"

definition order_safe :: "pyfloat \<Rightarrow> pyfloat \<Rightarrow> bool" where
  \<comment> \<open>not: the second coordinate of an axis is NaN while the first is below \<open>1.0\<close>\<close>
  "order_safe a b = (\<not> (b = NaN \<and> flt a (Fin 1)))"

definition nan_safe :: "(string \<Rightarrow> pyfloat option) \<Rightarrow> pyval \<Rightarrow> bool" where
  \<comment> \<open>the coordinates that are read are \<open>order_safe\<close> on both axes\<close>
  "nan_safe sf v =
     (case corners sf v of
        Inl e \<Rightarrow> True
      | Inr (x0, y0, x1, y1) \<Rightarrow> order_safe x0 x1 \<and> order_safe y0 y1)"

definition in_float_range :: "(string \<Rightarrow> pyfloat option) \<Rightarrow> pyval \<Rightarrow> bool" where
  \<comment> \<open>a list or tuple of four numbers holds no integer beyond the range of a float\<close>
  "in_float_range sf v =
     (case seq_items v of
        None \<Rightarrow> True
      | Some xs \<Rightarrow>
          (length xs = 4 \<and> list_all is_number xs
             \<longrightarrow> (\<forall>z \<in> set xs. py_float sf z \<noteq> Inl OverflowError)))"

fun is_dict :: "pyval \<Rightarrow> bool" where
  "is_dict (PDict kvs) = True"
| "is_dict v = False"

section \<open>Field cleaner (services/extractor.py)\<close>

text \<open>
  The cleaner normalises every text with \<open>_norm_text\<close> before it looks at it, so its
  patterns only ever read ASCII text and the matchers above are exact for them. The
  accented capitals that occur in the source, as in the second label of the key
  \<open>seccion\<close>, are written by their code points.
\<close>

definition starts_with :: "string \<Rightarrow> string \<Rightarrow> bool" where
  \<comment> \<open>\<open>t.startswith(p)\<close>\<close>
  "starts_with t p = (take (length p) t = p)"

definition label_prefixes :: "string \<Rightarrow> (string \<times> string list) list" where
  \<comment> \<open>\<open>LABEL_PREFIXES\<close>\<close>
  "label_prefixes tipo =
     (if tipo = ''acta'' then
        [(''nombres'', [''NOMBRE'', ''NOMBRE S'', ''NOMBRES'']),
         (''primer_apellido'', [''PRIMER APELLIDO'', ''APELLIDO PATERNO'']),
         (''segundo_apellido'', [''SEGUNDO APELLIDO'', ''APELLIDO MATERNO'']),
         (''entidad_registro'', [''ENTIDAD DE REGISTRO'']),
         (''municipio_registro'', [''MUNICIPIO DE REGISTRO'']),
         (''lugar_nacimiento'', [''LUGAR DE NACIMIENTO''])]
      else if tipo = ''curp'' then
        [(''nombre'', [''NOMBRE'', ''NOMBRE S'', ''NOMBRES'']),
         (''entidad_registro'', [''ENTIDAD DE REGISTRO'', ''LUGAR DE REGISTRO''])]
      else if tipo = ''ine'' then
        [(''nombre'', [''NOMBRE'']),
         (''domicilio'', [''DOMICILIO'']),
         (''clave_elector'', [''CLAVE DE ELECTOR'', ''CLAVE DE  ELECTOR'']),
         (''fecha_nacimiento'', [''FECHA DE NACIMIENTO'', ''FECHA DENACIMIENTO'']),
         (''vigencia'', [''VIGENCIA'']),
         (''seccion'', [''SECCION'', ''SECCI'' @ [char_of (211 :: nat)] @ ''N''])]
      else [])"

definition prefixes_of :: "string \<Rightarrow> string \<Rightarrow> string list" where
  \<comment> \<open>\<open>LABEL_PREFIXES[tipo].get(k, [])\<close>\<close>
  "prefixes_of tipo k = (case map_of (label_prefixes tipo) k of None \<Rightarrow> [] | Some ps \<Rightarrow> ps)"

definition ESTADOS :: "string list" where
  "ESTADOS =
     [''AGUASCALIENTES'', ''BAJA CALIFORNIA'', ''BAJA CALIFORNIA SUR'', ''CAMPECHE'',
      ''COAHUILA'', ''COLIMA'', ''CHIAPAS'', ''CHIHUAHUA'', ''CIUDAD DE MEXICO'', ''DURANGO'',
      ''GUANAJUATO'', ''GUERRERO'', ''HIDALGO'', ''JALISCO'', ''MEXICO'', ''MICHOACAN'',
      ''MORELOS'', ''NAYARIT'', ''NUEVO LEON'', ''OAXACA'', ''PUEBLA'', ''QUERETARO'',
      ''QUINTANA ROO'', ''SAN LUIS POTOSI'', ''SINALOA'', ''SONORA'', ''TABASCO'',
      ''TAMAULIPAS'', ''TLAXCALA'', ''VERACRUZ'', ''YUCATAN'', ''ZACATECAS'']"

definition clean_ine_sexo :: "(string \<Rightarrow> string) \<Rightarrow> string \<Rightarrow> string" where
  "clean_ine_sexo ud s =
     (case ascii_search SEXO_REGEX (norm_text ud s) of
        None \<Rightarrow> []
      | Some m \<Rightarrow> if starts_with m ''M'' then ''M'' else ''H'')"

definition pick_first_regex :: "(string \<Rightarrow> string) \<Rightarrow> string \<Rightarrow> regex \<Rightarrow> string" where
  \<comment> \<open>\<open>_pick_first_regex\<close> and \<open>_pick_first_regex_any\<close>, which are the same function\<close>
  "pick_first_regex ud s pat =
     (case ascii_search pat (norm_text ud s) of None \<Rightarrow> [] | Some m \<Rightarrow> m)"

definition is_letter_or_blank :: "char \<Rightarrow> bool" where
  \<comment> \<open>the class of A-Z, the blank and the seven accented capitals N-tilde, A, E, I, O,
      U-acute and U-diaeresis, which the pattern of \<open>_only_letters_spaces\<close> keeps\<close>
  "is_letter_or_blank c =
     (is_AZ c \<or> c = CHR '' '' \<or> of_char c \<in> {209, 193, 201, 205, 211, 218, 220 :: nat})"

fun sub_runs :: "(char \<Rightarrow> bool) \<Rightarrow> bool \<Rightarrow> string \<Rightarrow> string" where
  \<comment> \<open>\<^verbatim>\<open>re.sub(r"[^...]+", " ", t)\<close> for the class of the characters that \<open>keep\<close> accepts:
      every maximal run of other characters becomes one blank\<close>
  "sub_runs keep in_run [] = []"
| "sub_runs keep in_run (c # cs) =
     (if keep c then c # sub_runs keep False cs
      else if in_run then sub_runs keep True cs
      else CHR '' '' # sub_runs keep True cs)"

definition only_letters_spaces :: "(string \<Rightarrow> string) \<Rightarrow> string \<Rightarrow> string" where
  "only_letters_spaces ud s =
     strip (collapse_ws False (sub_runs is_letter_or_blank False (norm_text ud s)))"

fun strip_first_prefix :: "(string \<Rightarrow> string) \<Rightarrow> string \<Rightarrow> string list \<Rightarrow> string" where
  \<comment> \<open>the loop of \<open>_strip_any_prefix\<close>: the first prefix that fits is removed, once\<close>
  "strip_first_prefix ud t [] = t"
| "strip_first_prefix ud t (p # ps) =
     (let p_norm = norm_text ud p
      in if starts_with t p_norm then strip (drop (length p_norm) t)
         else strip_first_prefix ud t ps)"

definition strip_any_prefix :: "(string \<Rightarrow> string) \<Rightarrow> string \<Rightarrow> string list \<Rightarrow> string" where
  "strip_any_prefix ud s prefixes = strip_first_prefix ud (norm_text ud s) prefixes"

fun split_ws :: "string \<Rightarrow> string \<Rightarrow> string list" where
  \<comment> \<open>\<open>str.split()\<close>, with the word that is being read\<close>
  "split_ws cur [] = (if cur = [] then [] else [cur])"
| "split_ws cur (c # cs) =
     (if is_space c then (if cur = [] then split_ws [] cs else cur # split_ws [] cs)
      else split_ws (cur @ [c]) cs)"

fun join_blank :: "string list \<Rightarrow> string" where
  \<comment> \<open>\<open>" ".join(parts)\<close>\<close>
  "join_blank [] = []"
| "join_blank [w] = w"
| "join_blank (w # ws) = w @ CHR '' '' # join_blank ws"

definition windows :: "nat \<Rightarrow> string list \<Rightarrow> string list" where
  \<comment> \<open>\<open>" ".join(parts[i:i+n])\<close> for \<open>i\<close> in \<open>range(len(parts) - n + 1)\<close>\<close>
  "windows n parts =
     map (\<lambda>i. join_blank (take n (drop i parts))) [0 ..< length parts + 1 - n]"

definition pick_first_state_in_text :: "(string \<Rightarrow> string) \<Rightarrow> string \<Rightarrow> string" where
  "pick_first_state_in_text ud s =
     (let parts = split_ws [] (only_letters_spaces ud s)
      in case find (\<lambda>cand. cand \<in> set ESTADOS) (concat (map (\<lambda>n. windows n parts) [3, 2, 1])) of
           None \<Rightarrow> []
         | Some cand \<Rightarrow> cand)"

fun squeeze_ws :: "string \<Rightarrow> string \<Rightarrow> string" where
  \<comment> \<open>\<^verbatim>\<open>re.sub(r"\s{2,}", " ", t)\<close>, with the run of white space that is being read: a run
      of two or more becomes one blank, a single character stays\<close>
  "squeeze_ws run [] = (if length run \<ge> 2 then '' '' else run)"
| "squeeze_ws run (c # cs) =
     (if is_space c then squeeze_ws (run @ [c]) cs
      else (if length run \<ge> 2 then '' '' else run) @ c # squeeze_ws [] cs)"

definition clean_address_line :: "(string \<Rightarrow> string) \<Rightarrow> string \<Rightarrow> string" where
  "clean_address_line ud s =
     strip (squeeze_ws [] (dropWhile (\<lambda>c. \<not> is_AZ09 c) (norm_text ud s)))"

definition clean_clave_elector :: "(string \<Rightarrow> string) \<Rightarrow> string \<Rightarrow> string" where
  \<comment> \<open>the two lines of the cleaner for the key \<open>clave_elector\<close>\<close>
  "clean_clave_elector ud v =
     (let cand = pick_first_regex ud v CLAVE_ELECTOR_REGEX
      in if cand \<noteq> [] then cand else filter is_AZ09 (norm_text ud v))"

definition state_or_letters :: "(string \<Rightarrow> string) \<Rightarrow> string \<Rightarrow> string" where
  \<comment> \<open>the lines of the branch for \<open>curp\<close> on the key \<open>entidad_registro\<close>\<close>
  "state_or_letters ud v =
     (let tmp = strip_any_prefix ud v (prefixes_of ''curp'' ''entidad_registro'');
          st = pick_first_state_in_text ud tmp
      in if st \<noteq> [] then st else only_letters_spaces ud tmp)"

definition sexo_letter :: "(string \<Rightarrow> string) \<Rightarrow> string \<Rightarrow> string" where
  \<comment> \<open>the lines of the branch for \<open>acta\<close> on the key \<open>sexo\<close>\<close>
  "sexo_letter ud v =
     (let m = pick_first_regex ud v SEXO_REGEX
      in if starts_with m ''M'' then ''M'' else if m \<noteq> [] then ''H'' else [])"

definition state_or_same :: "(string \<Rightarrow> string) \<Rightarrow> string \<Rightarrow> string" where
  \<comment> \<open>the lines of the branch for \<open>acta\<close> on the key \<open>entidad_registro\<close>\<close>
  "state_or_same ud v = (let st = pick_first_state_in_text ud v in if st \<noteq> [] then st else v)"

definition on_key :: "string \<Rightarrow> (string \<Rightarrow> string) \<Rightarrow> dict \<Rightarrow> dict" where
  \<comment> \<open>\<open>if k in out: out[k] = f(out[k])\<close>\<close>
  "on_key k f out = (case map_of out k of None \<Rightarrow> out | Some v \<Rightarrow> dict_set out k (f v))"

definition on_key_nonempty :: "string \<Rightarrow> (string \<Rightarrow> string) \<Rightarrow> dict \<Rightarrow> dict" where
  \<comment> \<open>\<open>if k in out and out[k]: out[k] = f(out[k])\<close>\<close>
  "on_key_nonempty k f out =
     (case map_of out k of
        None \<Rightarrow> out
      | Some v \<Rightarrow> if v = [] then out else dict_set out k (f v))"

definition strip_prefix_step :: "(string \<Rightarrow> string) \<Rightarrow> string \<Rightarrow> string \<Rightarrow> dict \<Rightarrow> dict" where
  \<comment> \<open>the body of the loops that strip the label of the key \<open>k\<close>\<close>
  "strip_prefix_step ud tipo k =
     on_key_nonempty k (\<lambda>v. strip_any_prefix ud v (prefixes_of tipo k))"

definition ine_steps :: "(string \<Rightarrow> string) \<Rightarrow> (dict \<Rightarrow> dict) list" where
  "ine_steps ud =
     map (strip_prefix_step ud ''ine'')
       [''nombre'', ''domicilio'', ''clave_elector'', ''fecha_nacimiento'', ''vigencia'',
        ''seccion'']
     @ [on_key ''sexo'' (clean_ine_sexo ud),
        on_key ''anio_registro'' (\<lambda>v. pick_first_regex ud v YEAR_REGEX),
        on_key ''seccion'' (\<lambda>v. pick_first_regex ud v SECCION_REGEX),
        on_key ''vigencia'' (\<lambda>v. pick_first_regex ud v VIG_REGEX),
        on_key ''fecha_nacimiento'' (\<lambda>v. pick_first_regex ud v DATE_REGEX),
        on_key ''clave_elector'' (clean_clave_elector ud),
        on_key ''curp'' (\<lambda>v. pick_first_regex ud v CURP_REGEX),
        on_key ''domicilio'' (clean_address_line ud)]"

definition curp_steps :: "(string \<Rightarrow> string) \<Rightarrow> (dict \<Rightarrow> dict) list" where
  "curp_steps ud =
     [on_key ''curp'' (\<lambda>v. pick_first_regex ud v CURP_REGEX),
      on_key ''nombre'' (\<lambda>v. strip_any_prefix ud v (prefixes_of ''curp'' ''nombre'')),
      on_key ''nombre'' (only_letters_spaces ud),
      on_key ''entidad_registro'' (state_or_letters ud)]"

definition acta_steps :: "(string \<Rightarrow> string) \<Rightarrow> (dict \<Rightarrow> dict) list" where
  "acta_steps ud =
     [on_key ''curp'' (\<lambda>v. pick_first_regex ud v CURP_REGEX)]
     @ map (strip_prefix_step ud ''acta'')
         [''nombres'', ''primer_apellido'', ''segundo_apellido'', ''entidad_registro'',
          ''municipio_registro'', ''sexo'', ''fecha_nacimiento'', ''lugar_nacimiento'']
     @ map (\<lambda>k. on_key k (only_letters_spaces ud))
         [''nombres'', ''primer_apellido'', ''segundo_apellido'', ''lugar_nacimiento'',
          ''municipio_registro'']
     @ [on_key ''sexo'' (sexo_letter ud),
        on_key ''fecha_nacimiento'' (\<lambda>v. pick_first_regex ud v DATE_REGEX),
        on_key ''entidad_registro'' (state_or_same ud)]"

definition post_process_document_fields :: "(string \<Rightarrow> string) \<Rightarrow> string \<Rightarrow> dict \<Rightarrow> dict" where
  \<comment> \<open>the statements of the branch of the type, run in their order on a copy of the map\<close>
  "post_process_document_fields ud tipo field_map =
     fold (\<lambda>step out. step out)
       (if tipo = ''ine'' then ine_steps ud
        else if tipo = ''curp'' then curp_steps ud
        else if tipo = ''acta'' then acta_steps ud
        else [])
       field_map"

section \<open>Normalised texts\<close>

text \<open>
  What the proofs about the cleaner need to know of \<open>unidecode\<close>: it returns ASCII text
  and leaves ASCII text as it is. A text is normalised when it is ASCII without small
  letters, its only white space is single blanks, and it neither begins nor ends with one;
  these are the texts that \<open>_norm_text\<close> returns and leaves unchanged.
\<close>

definition ascii_text :: "string \<Rightarrow> bool" where
  "ascii_text s = list_all (\<lambda>c. (of_char c :: nat) < 128) s"

definition unidecode_like :: "(string \<Rightarrow> string) \<Rightarrow> bool" where
  "unidecode_like ud = ((\<forall>s. ascii_text (ud s)) \<and> (\<forall>s. ascii_text s \<longrightarrow> ud s = s))"

definition up_ascii :: "char \<Rightarrow> bool" where
  "up_ascii c = ((of_char c :: nat) < 128 \<and> ascii_upper_char c = c)"

fun single_blanks :: "string \<Rightarrow> bool" where
  "single_blanks [] = True"
| "single_blanks (c # cs) =
     ((is_space c \<longrightarrow> c = CHR '' '' \<and> (cs = [] \<or> \<not> is_space (hd cs))) \<and> single_blanks cs)"

definition trimmed :: "string \<Rightarrow> bool" where
  "trimmed t = (t = [] \<or> (\<not> is_space (hd t) \<and> \<not> is_space (last t)))"

definition normalised :: "string \<Rightarrow> bool" where
  "normalised t = (list_all up_ascii t \<and> single_blanks t \<and> trimmed t)"

definition map_values :: "(string \<Rightarrow> string \<Rightarrow> string) \<Rightarrow> dict \<Rightarrow> dict" where
  \<comment> \<open>the map with the value \<open>g k v\<close> at every key \<open>k\<close> that had the value \<open>v\<close>\<close>
  "map_values g d = map (\<lambda>(k, v). (k, g k v)) d"

definition at_key :: "string \<Rightarrow> (string \<Rightarrow> string) \<Rightarrow> string \<Rightarrow> string \<Rightarrow> string" where
  "at_key k f k' v = (if k' = k then f v else v)"

definition label_free :: "(string \<Rightarrow> string) \<Rightarrow> string \<Rightarrow> dict \<Rightarrow> bool" where
  \<comment> \<open>no value begins with a label that the cleaner strips from its key\<close>
  "label_free ud tipo d =
     (\<forall>(k, v) \<in> set d. \<forall>p \<in> set (prefixes_of tipo k). \<not> starts_with v (norm_text ud p))"

definition strip_label :: "(string \<Rightarrow> string) \<Rightarrow> string \<Rightarrow> string \<Rightarrow> string \<Rightarrow> string" where
  \<comment> \<open>what \<open>strip_prefix_step\<close> leaves at the key \<open>k\<close> that held \<open>v\<close>\<close>
  "strip_label ud tipo k v = (if v = [] then v else strip_any_prefix ud v (prefixes_of tipo k))"

definition ine_value :: "(string \<Rightarrow> string) \<Rightarrow> string \<Rightarrow> string \<Rightarrow> string" where
  \<comment> \<open>the value that the branch for \<open>ine\<close> leaves at the key \<open>k\<close> that held \<open>v\<close>\<close>
  "ine_value ud k v =
     (if k = ''nombre'' then strip_label ud ''ine'' k v
      else if k = ''domicilio'' then clean_address_line ud (strip_label ud ''ine'' k v)
      else if k = ''clave_elector'' then clean_clave_elector ud (strip_label ud ''ine'' k v)
      else if k = ''fecha_nacimiento'' then
        pick_first_regex ud (strip_label ud ''ine'' k v) DATE_REGEX
      else if k = ''vigencia'' then pick_first_regex ud (strip_label ud ''ine'' k v) VIG_REGEX
      else if k = ''seccion'' then pick_first_regex ud (strip_label ud ''ine'' k v) SECCION_REGEX
      else if k = ''sexo'' then clean_ine_sexo ud v
      else if k = ''anio_registro'' then pick_first_regex ud v YEAR_REGEX
      else if k = ''curp'' then pick_first_regex ud v CURP_REGEX
      else v)"

definition curp_value :: "(string \<Rightarrow> string) \<Rightarrow> string \<Rightarrow> string \<Rightarrow> string" where
  \<comment> \<open>the value that the branch for \<open>curp\<close> leaves at the key \<open>k\<close> that held \<open>v\<close>\<close>
  "curp_value ud k v =
     (if k = ''curp'' then pick_first_regex ud v CURP_REGEX
      else if k = ''nombre'' then
        only_letters_spaces ud (strip_any_prefix ud v (prefixes_of ''curp'' ''nombre''))
      else if k = ''entidad_registro'' then state_or_letters ud v
      else v)"

definition acta_value :: "(string \<Rightarrow> string) \<Rightarrow> string \<Rightarrow> string \<Rightarrow> string" where
  \<comment> \<open>the value that the branch for \<open>acta\<close> leaves at the key \<open>k\<close> that held \<open>v\<close>\<close>
  "acta_value ud k v =
     (if k = ''curp'' then pick_first_regex ud v CURP_REGEX
      else if k \<in> set [''nombres'', ''primer_apellido'', ''segundo_apellido'',
                       ''lugar_nacimiento'', ''municipio_registro''] then
        only_letters_spaces ud (strip_label ud ''acta'' k v)
      else if k = ''sexo'' then sexo_letter ud (strip_label ud ''acta'' k v)
      else if k = ''fecha_nacimiento'' then
        pick_first_regex ud (strip_label ud ''acta'' k v) DATE_REGEX
      else if k = ''entidad_registro'' then state_or_same ud (strip_label ud ''acta'' k v)
      else v)"

definition cleaned_value :: "(string \<Rightarrow> string) \<Rightarrow> string \<Rightarrow> string \<Rightarrow> string \<Rightarrow> string" where
  "cleaned_value ud tipo k v =
     (if tipo = ''ine'' then ine_value ud k v
      else if tipo = ''curp'' then curp_value ud k v
      else if tipo = ''acta'' then acta_value ud k v
      else v)"

section \<open>Properties of the merge engine\<close>

lemma map_of_dict_set: "map_of (dict_set d k v) = (map_of d)(k \<mapsto> v)"
  by (induction d) auto

lemma keys_dict_set: "keys (dict_set d k v) = insert k (keys d)"
  by (induction d) (auto simp: keys_def)

lemma distinct_dict_set: "distinct (map fst d) \<Longrightarrow> distinct (map fst (dict_set d k v))"
  by (induction d) (auto simp: keys_dict_set[unfolded keys_def])

lemma has_key_iff: "has_key d k \<longleftrightarrow> k \<in> keys d"
  by (simp add: has_key_def keys_def map_of_eq_None_iff)

lemma choose_field_chosen:
  "choose_field up rs k pat tpl auto text st =
     (dict_set (fst st) k (snd (chosen up rs k pat tpl auto text)),
      snd st @ [\<lparr>field = k, chosen_from = fst (chosen up rs k pat tpl auto text),
                 val = snd (chosen up rs k pat tpl auto text)\<rparr>])"
  by (simp add: choose_field_def chosen_def Let_def split: prod.splits)

lemma choose_all_chosen:
  "choose_all up rs cs tpl auto text st =
     (fold (\<lambda>(k, pat) f. dict_set f k (snd (chosen up rs k pat tpl auto text))) cs (fst st),
      snd st @ map (\<lambda>(k, pat). \<lparr>field = k, chosen_from = fst (chosen up rs k pat tpl auto text),
                                 val = snd (chosen up rs k pat tpl auto text)\<rparr>) cs)"
  unfolding choose_all_def
  by (induction cs arbitrary: st) (auto simp: choose_field_chosen)

lemma keys_fold_chosen:
  "keys (fold (\<lambda>(k, pat) f. dict_set f k (g k pat)) cs d) = keys d \<union> fst ` set cs"
  by (induction cs arbitrary: d) (auto simp: keys_dict_set)

lemma map_of_fold_chosen_notin:
  "k \<notin> fst ` set cs \<Longrightarrow> map_of (fold (\<lambda>(k, pat) f. dict_set f k (g k pat)) cs d) k = map_of d k"
  by (induction cs arbitrary: d) (auto simp: map_of_dict_set)

lemma map_of_fold_chosen:
  "distinct (map fst cs) \<Longrightarrow> (k, pat) \<in> set cs \<Longrightarrow>
   map_of (fold (\<lambda>(k, pat) f. dict_set f k (g k pat)) cs d) k = Some (g k pat)"
proof (induction cs arbitrary: d)
  case Nil
  then show ?case by simp
next
  case (Cons c cs)
  show ?case
  proof (cases "c = (k, pat)")
    case True
    with Cons.prems have "k \<notin> fst ` set cs" by auto
    then show ?thesis using True by (simp add: map_of_fold_chosen_notin map_of_dict_set)
  next
    case False
    with Cons show ?thesis by auto
  qed
qed

lemma filter_field_map:
  "distinct (map fst cs) \<Longrightarrow> (k, pat) \<in> set cs \<Longrightarrow>
   filter (\<lambda>d. field d = k) (map (\<lambda>(k, pat). \<lparr>field = k, chosen_from = g k pat, val = h k pat\<rparr>) cs)
     = [\<lparr>field = k, chosen_from = g k pat, val = h k pat\<rparr>]"
proof (induction cs)
  case Nil
  then show ?case by simp
next
  case (Cons c cs)
  show ?case
  proof (cases "c = (k, pat)")
    case True
    with Cons.prems have "k \<notin> fst ` set cs" by auto
    then have "filter (\<lambda>d. field d = k) (map (\<lambda>(k, pat). \<lparr>field = k, chosen_from = g k pat, val = h k pat\<rparr>) cs) = []"
      by (force simp: filter_empty_conv)
    then show ?thesis using True by simp
  next
    case False
    with Cons.prems have "fst c \<noteq> k" by (cases c) force
    with Cons False show ?thesis by (cases c) auto
  qed
qed

lemma keys_setdefault: "keys (setdefault d k v) = insert k (keys d)"
  by (auto simp: setdefault_def has_key_iff keys_def)

lemma keys_fold_setdefault: "keys (fold (\<lambda>k f. setdefault f k v) ks d) = keys d \<union> set ks"
  by (induction ks arbitrary: d) (auto simp: keys_setdefault)

lemma map_of_setdefault:
  "map_of (setdefault d k v) k' = (if k' = k \<and> k \<notin> keys d then Some v else map_of d k')"
proof (cases "k \<in> keys d")
  case True
  then show ?thesis by (simp add: setdefault_def has_key_iff)
next
  case False
  then have "map_of d k = None" by (simp add: keys_def map_of_eq_None_iff)
  with False show ?thesis by (auto simp: setdefault_def has_key_iff map_add_def split: option.splits)
qed

lemma map_of_fold_setdefault:
  "map_of (fold (\<lambda>k f. setdefault f k v) ks d) k' =
     (if k' \<in> keys d then map_of d k' else if k' \<in> set ks then Some v else None)"
proof (induction ks arbitrary: d)
  case Nil
  then show ?case by (auto simp: keys_def map_of_eq_None_iff)
next
  case (Cons k ks)
  then show ?case by (auto simp: map_of_setdefault keys_setdefault)
qed

lemma distinct_field_patterns: "distinct (map fst (field_patterns tipo))"
  by (simp add: field_patterns_def ine_calls_def curp_calls_def acta_calls_def)

lemma fst_field_patterns:
  "tipo \<in> {''ine'', ''curp'', ''acta''} \<Longrightarrow> map fst (field_patterns tipo) = expected_keys tipo"
  by (auto simp: field_patterns_def ine_calls_def curp_calls_def acta_calls_def expected_keys_def)

lemma smart_merge_fields_fixed:
  assumes "tipo \<in> {''ine'', ''curp'', ''acta''}"
  shows "smart_merge_fields up rs tipo tpl auto text =
     (fold (\<lambda>k fields. setdefault fields k []) (expected_keys tipo)
        (fold (\<lambda>(k, pat) f. dict_set f k (snd (chosen up rs k pat tpl auto text)))
           (field_patterns tipo) []),
      map (\<lambda>(k, pat). \<lparr>field = k, chosen_from = fst (chosen up rs k pat tpl auto text),
                        val = snd (chosen up rs k pat tpl auto text)\<rparr>) (field_patterns tipo))"
  using assms by (auto simp: smart_merge_fields_def field_patterns_def choose_all_chosen)

lemma merged_field:
  assumes "tipo \<in> {''ine'', ''curp'', ''acta''}" and "(name, pat) \<in> set (field_patterns tipo)"
  shows "map_of (fst (smart_merge_fields up rs tipo tpl au tx)) name
           = Some (snd (chosen up rs name pat tpl au tx))"
    and "filter (\<lambda>d. field d = name) (snd (smart_merge_fields up rs tipo tpl au tx))
           = [\<lparr>field = name, chosen_from = fst (chosen up rs name pat tpl au tx),
                val = snd (chosen up rs name pat tpl au tx)\<rparr>]"
proof -
  have in_keys: "name \<in> fst ` set (field_patterns tipo)"
    using assms(2) by force
  show "map_of (fst (smart_merge_fields up rs tipo tpl au tx)) name
           = Some (snd (chosen up rs name pat tpl au tx))"
    using in_keys assms(2)
    by (simp add: smart_merge_fields_fixed[OF assms(1)] map_of_fold_setdefault keys_fold_chosen
          map_of_fold_chosen[OF distinct_field_patterns])
  show "filter (\<lambda>d. field d = name) (snd (smart_merge_fields up rs tipo tpl au tx))
           = [\<lparr>field = name, chosen_from = fst (chosen up rs name pat tpl au tx),
                val = snd (chosen up rs name pat tpl au tx)\<rparr>]"
    using assms(2)
    by (simp add: smart_merge_fields_fixed[OF assms(1)] filter_field_map[OF distinct_field_patterns])
qed

lemma chosen_auto:
  assumes "ok up rs (Some p) (strip (get_or_empty au name))"
      and "\<not> ok up rs (Some p) (strip (get_or_empty tpl name))"
  shows "chosen up rs name (Some p) tpl au tx = (''auto'', strip (get_or_empty au name))"
  using assms by (simp add: chosen_def choose_field_def Let_def)

lemma chosen_template_fallback:
  assumes "\<not> ok up rs (Some p) (strip (get_or_empty tpl name))"
      and "strip (get_or_empty tpl name) \<noteq> []"
      and "strip (get_or_empty auto name) = []"
      and "strip (get_or_empty text name) = []"
  shows "chosen up rs name (Some p) tpl auto text = (''template'', strip (get_or_empty tpl name))"
  using assms by (simp add: chosen_def choose_field_def Let_def ok_def)

lemma chosen_no_pattern_all_empty:
  assumes "strip (get_or_empty tpl name) = []"
      and "strip (get_or_empty auto name) = []"
      and "strip (get_or_empty text name) = []"
  shows "chosen up rs name None tpl auto text = (''text'', [])"
  using assms by (simp add: chosen_def choose_field_def Let_def ok_def)

text \<open>
  Claim C5 says that the auto value is picked when it matches the pattern and the template
  and text values do not. \<open>_ok\<close> tests the pattern on the upper-cased value: for \<open>sexo\<close>
  of the type \<open>ine\<close> with the template value \<open>h\<close> and the auto value \<open>M\<close>, only the auto
  value matches the pattern, and the template value is picked, because \<open>H\<close> matches.
\<close>

theorem merge_priority_auto_counterexample:
  "ascii_matches SEXO_REGEX ''M'' \<and> \<not> ascii_matches SEXO_REGEX ''h''
   \<and> \<not> ascii_matches SEXO_REGEX []
   \<and> map_of (fst (smart_merge_fields ascii_upper ascii_matches ''ine''
                    [(''sexo'', ''h'')] [(''sexo'', ''M'')] [])) ''sexo'' = Some ''h''
   \<and> filter (\<lambda>d. field d = ''sexo'')
        (snd (smart_merge_fields ascii_upper ascii_matches ''ine''
                [(''sexo'', ''h'')] [(''sexo'', ''M'')] []))
       = [\<lparr>field = ''sexo'', chosen_from = ''template'', val = ''h''\<rparr>]"
  by code_simp

text \<open>
  Claim C5, amended. A value passes a pattern when, trimmed, it is not empty and its
  upper-cased form matches the pattern (\<open>ok\<close>, the \<open>_ok\<close> of the source, applied to the
  trimmed value as \<open>_choose\<close> does). In \<open>smart_merge_fields\<close>, for a field of a fixed-field
  type that has a validation pattern: when the auto value passes the pattern and the
  template value and the text value do not (empty or not), the merged value is the trimmed
  auto value and the one decision recorded for the field names the source \<open>auto\<close>. The
  matcher \<open>rs\<close> and the upper-casing \<open>up\<close> are arbitrary.
\<close>

theorem merge_priority_auto:
  assumes "tipo \<in> {''ine'', ''curp'', ''acta''}"
      and "(name, Some p) \<in> set (field_patterns tipo)"
      and "ok up rs (Some p) (strip (get_or_empty au name))"
      and "\<not> ok up rs (Some p) (strip (get_or_empty tpl name))"
      and "\<not> ok up rs (Some p) (strip (get_or_empty tx name))"
  shows "map_of (fst (smart_merge_fields up rs tipo tpl au tx)) name
           = Some (strip (get_or_empty au name))
       \<and> filter (\<lambda>d. field d = name) (snd (smart_merge_fields up rs tipo tpl au tx))
           = [\<lparr>field = name, chosen_from = ''auto'', val = strip (get_or_empty au name)\<rparr>]"
  using merged_field[OF assms(1,2), of up rs tpl au tx] chosen_auto[OF assms(3,4), of tx]
  by simp

theorem merge_priority_auto_witness:
  "''ine'' \<in> {''ine'', ''curp'', ''acta''}
   \<and> (''sexo'', Some SEXO_REGEX) \<in> set (field_patterns ''ine'')
   \<and> ok ascii_upper ascii_matches (Some SEXO_REGEX) (strip (get_or_empty [(''sexo'', '' h '')] ''sexo''))
   \<and> \<not> ok ascii_upper ascii_matches (Some SEXO_REGEX) (strip (get_or_empty [(''sexo'', ''X'')] ''sexo''))
   \<and> \<not> ok ascii_upper ascii_matches (Some SEXO_REGEX) (strip (get_or_empty [(''sexo'', ''Q'')] ''sexo''))
   \<and> map_of (fst (smart_merge_fields ascii_upper ascii_matches ''ine'' [(''sexo'', ''X'')]
                    [(''sexo'', '' h '')] [(''sexo'', ''Q'')])) ''sexo'' = Some ''h''
   \<and> filter (\<lambda>d. field d = ''sexo'')
        (snd (smart_merge_fields ascii_upper ascii_matches ''ine'' [(''sexo'', ''X'')]
                [(''sexo'', '' h '')] [(''sexo'', ''Q'')]))
       = [\<lparr>field = ''sexo'', chosen_from = ''auto'', val = ''h''\<rparr>]"
proof -
  have h1: "''ine'' \<in> {''ine'', ''curp'', ''acta''}" by simp
  have h2: "(''sexo'', Some SEXO_REGEX) \<in> set (field_patterns ''ine'')"
    by (simp add: field_patterns_def ine_calls_def)
  have s: "strip (get_or_empty [(''sexo'', '' h '')] ''sexo'') = ''h''"
    by code_simp
  have h3: "ok ascii_upper ascii_matches (Some SEXO_REGEX) (strip (get_or_empty [(''sexo'', '' h '')] ''sexo''))"
    by code_simp
  have h4: "\<not> ok ascii_upper ascii_matches (Some SEXO_REGEX) (strip (get_or_empty [(''sexo'', ''X'')] ''sexo''))"
    by code_simp
  have h5: "\<not> ok ascii_upper ascii_matches (Some SEXO_REGEX) (strip (get_or_empty [(''sexo'', ''Q'')] ''sexo''))"
    by code_simp
  show ?thesis
    using h1 h2 h3 h4 h5 merge_priority_auto[OF h1 h2 h3 h4 h5] by (simp only: s simp_thms)
qed

lemma keys_dict_update: "keys (dict_update d other) = keys d \<union> keys other"
  unfolding dict_update_def
  by (induction other arbitrary: d) (auto simp: keys_dict_set, auto simp: keys_def)

lemma distinct_dict_update:
  "distinct (map fst d) \<Longrightarrow> distinct (map fst (dict_update d other))"
  unfolding dict_update_def
  by (induction other arbitrary: d) (auto simp: distinct_dict_set)

lemma map_of_dict_update_notin:
  "k \<notin> keys other \<Longrightarrow> map_of (dict_update d other) k = map_of d k"
  unfolding dict_update_def
  by (induction other arbitrary: d) (auto simp: map_of_dict_set keys_def)

lemma map_of_dict_update_in:
  "distinct (map fst other) \<Longrightarrow> map_of other k = Some v \<Longrightarrow>
   map_of (dict_update d other) k = Some v"
proof (induction other arbitrary: d)
  case Nil
  then show ?case by simp
next
  case (Cons p other)
  obtain k' v' where p: "p = (k', v')" by (cases p)
  have step: "dict_update d ((a, b) # other) = dict_update (dict_set d a b) other" for d a b
    by (simp add: dict_update_def)
  show ?case
  proof (cases "k' = k")
    case True
    with Cons.prems p have "v' = v" and "k \<notin> keys other" by (auto simp: keys_def)
    then show ?thesis using True
      by (simp add: p step map_of_dict_update_notin map_of_dict_set)
  next
    case False
    with Cons.prems have "distinct (map fst other)" and "map_of other k = Some v"
      by (auto simp: p)
    from Cons.IH[OF this] show ?thesis by (simp add: p step)
  qed
qed

lemma dict_set_append_new:
  "k \<notin> keys acc \<Longrightarrow> dict_set acc k v = acc @ [(k, v)]"
  by (induction acc) (auto simp: keys_def)

lemma fold_dict_set_rebuild:
  "distinct (map fst (acc @ d)) \<Longrightarrow>
   fold (\<lambda>kv f. dict_set f (fst kv) (snd kv)) d acc = acc @ d"
proof (induction d arbitrary: acc)
  case Nil
  then show ?case by simp
next
  case (Cons kv d)
  from Cons.prems have new: "fst kv \<notin> keys acc" by (auto simp: keys_def)
  from Cons.prems have "distinct (map fst ((acc @ [kv]) @ d))" by simp
  from Cons.IH[OF this] show ?case by (simp add: dict_set_append_new[OF new])
qed

lemma fold_otros_step:
  "fold (otros_step tpl au tx) d st =
     (fold (\<lambda>kv f. dict_set f (fst kv) (snd kv)) d (fst st),
      snd st @ map (\<lambda>kv. \<lparr>field = fst kv, chosen_from = otros_source tpl au tx (fst kv),
                           val = snd kv\<rparr>) d)"
  by (induction d arbitrary: st) (auto simp: otros_step_def)

lemma distinct_merged: "distinct (map fst (merged_of tpl au tx))"
  by (simp add: merged_of_def distinct_dict_update)

lemma keys_merged: "keys (merged_of tpl au tx) = keys tpl \<union> keys au \<union> keys tx"
  by (simp add: merged_of_def keys_dict_update) (simp add: keys_def)

lemma smart_merge_fields_otros:
  "smart_merge_fields up rs ''otros'' tpl au tx =
     (fold (\<lambda>k fields. setdefault fields k []) (expected_keys ''otros'') (merged_of tpl au tx),
      map (\<lambda>kv. \<lparr>field = fst kv, chosen_from = otros_source tpl au tx (fst kv),
                  val = snd kv\<rparr>) (merged_of tpl au tx))"
  using fold_dict_set_rebuild[of "[]" "merged_of tpl au tx"] distinct_merged[of tpl au tx]
  by (simp add: smart_merge_fields_def fold_otros_step Let_def merged_of_def)

lemma filter_field_entries:
  "distinct (map fst d) \<Longrightarrow> (k, v) \<in> set d \<Longrightarrow>
   filter (\<lambda>e. field e = k) (map (\<lambda>kv. \<lparr>field = fst kv, chosen_from = g (fst kv), val = snd kv\<rparr>) d)
     = [\<lparr>field = k, chosen_from = g k, val = v\<rparr>]"
proof (induction d)
  case Nil
  then show ?case by simp
next
  case (Cons c d)
  show ?case
  proof (cases "c = (k, v)")
    case True
    with Cons.prems have "k \<notin> fst ` set d" by auto
    then have "filter (\<lambda>e. field e = k)
        (map (\<lambda>kv. \<lparr>field = fst kv, chosen_from = g (fst kv), val = snd kv\<rparr>) d) = []"
      by (force simp: filter_empty_conv)
    then show ?thesis using True by simp
  next
    case False
    with Cons.prems have "fst c \<noteq> k" by (cases c) force
    with Cons False show ?thesis by auto
  qed
qed

text \<open>
  Claim C6 says that a template value that is not empty is picked when no value matches
  the pattern and the auto and text values are empty. \<open>_choose\<close> trims the values first:
  for \<open>sexo\<close> of the type \<open>ine\<close> with a template value of one blank and no other value,
  the template value is not empty, and the decision is \<open>none\<close> with the empty string.
\<close>

theorem merge_fallback_template_counterexample:
  "get_or_empty [(''sexo'', '' '')] ''sexo'' \<noteq> [] \<and> get_or_empty [] ''sexo'' = []
   \<and> \<not> ascii_matches SEXO_REGEX '' '' \<and> \<not> ascii_matches SEXO_REGEX []
   \<and> map_of (fst (smart_merge_fields ascii_upper ascii_matches ''ine''
                    [(''sexo'', '' '')] [] [])) ''sexo'' = Some []
   \<and> filter (\<lambda>d. field d = ''sexo'')
        (snd (smart_merge_fields ascii_upper ascii_matches ''ine'' [(''sexo'', '' '')] [] []))
       = [\<lparr>field = ''sexo'', chosen_from = ''none'', val = []\<rparr>]"
  by code_simp

text \<open>
  Claim C6, amended. In \<open>smart_merge_fields\<close>, for a field of a fixed-field type that has
  a validation pattern: when no source passes the pattern, the trimmed template value is
  not empty and the trimmed auto and text values are empty, the merged value is the trimmed
  template value and the decision names the source \<open>template\<close>, not \<open>none\<close>. An empty
  value never passes a pattern, so only the template value is tested.
\<close>

theorem merge_fallback_template:
  assumes "tipo \<in> {''ine'', ''curp'', ''acta''}"
      and "(name, Some p) \<in> set (field_patterns tipo)"
      and "\<not> ok up rs (Some p) (strip (get_or_empty tpl name))"
      and "strip (get_or_empty tpl name) \<noteq> []"
      and "strip (get_or_empty au name) = []"
      and "strip (get_or_empty tx name) = []"
  shows "map_of (fst (smart_merge_fields up rs tipo tpl au tx)) name
           = Some (strip (get_or_empty tpl name))
       \<and> filter (\<lambda>d. field d = name) (snd (smart_merge_fields up rs tipo tpl au tx))
           = [\<lparr>field = name, chosen_from = ''template'',
                val = strip (get_or_empty tpl name)\<rparr>]"
  using merged_field[OF assms(1,2), of up rs tpl au tx]
    chosen_template_fallback[OF assms(3,4,5,6)]
  by simp

theorem merge_fallback_template_witness:
  "''acta'' \<in> {''ine'', ''curp'', ''acta''}
   \<and> (''fecha_nacimiento'', Some DATE_REGEX) \<in> set (field_patterns ''acta'')
   \<and> \<not> ok ascii_upper ascii_matches (Some DATE_REGEX)
          (strip (get_or_empty [(''fecha_nacimiento'', ''5 JULIO 1990'')] ''fecha_nacimiento''))
   \<and> strip (get_or_empty [(''fecha_nacimiento'', ''5 JULIO 1990'')] ''fecha_nacimiento'') \<noteq> []
   \<and> strip (get_or_empty [(''fecha_nacimiento'', [])] ''fecha_nacimiento'') = []
   \<and> strip (get_or_empty [] ''fecha_nacimiento'') = []
   \<and> map_of (fst (smart_merge_fields ascii_upper ascii_matches ''acta''
          [(''fecha_nacimiento'', ''5 JULIO 1990'')] [(''fecha_nacimiento'', [])] []))
        ''fecha_nacimiento'' = Some ''5 JULIO 1990''
   \<and> filter (\<lambda>d. field d = ''fecha_nacimiento'')
        (snd (smart_merge_fields ascii_upper ascii_matches ''acta''
          [(''fecha_nacimiento'', ''5 JULIO 1990'')] [(''fecha_nacimiento'', [])] []))
       = [\<lparr>field = ''fecha_nacimiento'', chosen_from = ''template'', val = ''5 JULIO 1990''\<rparr>]"
proof -
  have h1: "''acta'' \<in> {''ine'', ''curp'', ''acta''}" by simp
  have h2: "(''fecha_nacimiento'', Some DATE_REGEX) \<in> set (field_patterns ''acta'')"
    by (simp add: field_patterns_def acta_calls_def)
  have s: "strip (get_or_empty [(''fecha_nacimiento'', ''5 JULIO 1990'')] ''fecha_nacimiento'')
             = ''5 JULIO 1990''"
    by code_simp
  have h3: "\<not> ok ascii_upper ascii_matches (Some DATE_REGEX)
          (strip (get_or_empty [(''fecha_nacimiento'', ''5 JULIO 1990'')] ''fecha_nacimiento''))"
    by code_simp
  have h4: "strip (get_or_empty [(''fecha_nacimiento'', ''5 JULIO 1990'')] ''fecha_nacimiento'') \<noteq> []"
    by code_simp
  have h5: "strip (get_or_empty [(''fecha_nacimiento'', [])] ''fecha_nacimiento'') = []"
    by code_simp
  have h6: "strip (get_or_empty [] ''fecha_nacimiento'') = []"
    by code_simp
  show ?thesis
    using h1 h2 h3 h4 h5 h6 merge_fallback_template[OF h1 h2 h3 h4 h5 h6]
    by (simp only: s simp_thms)
qed

text \<open>
  Claim C1 says that a field without a pattern whose three values are all empty resolves
  to the empty string with the source \<open>none\<close>. The branch of \<open>_choose\<close> for a field
  without a pattern ends in \<open>("text", x)\<close> whatever \<open>x\<close> is, so the source recorded is
  \<open>text\<close>; the branch for a field with a pattern records \<open>none\<close>. For the type
  \<open>curp\<close> and three empty maps: \<open>curp\<close> (with a pattern) is decided \<open>none\<close>, while
  \<open>nombre\<close> and \<open>entidad_registro\<close> (without) are decided \<open>text\<close>.
\<close>

theorem merge_no_pattern_all_empty_is_text:
  "smart_merge_fields ascii_upper ascii_matches ''curp'' [] [] [] =
     ([(''curp'', []), (''nombre'', []), (''entidad_registro'', [])],
      [\<lparr>field = ''curp'', chosen_from = ''none'', val = []\<rparr>,
       \<lparr>field = ''nombre'', chosen_from = ''text'', val = []\<rparr>,
       \<lparr>field = ''entidad_registro'', chosen_from = ''text'', val = []\<rparr>])"
  by code_simp

text \<open>
  Claim C3 says that for \<open>otros\<close> the keys of the result are exactly the keys of the three
  input maps. With three empty maps the result still holds the declared keys of \<open>otros\<close>,
  \<open>titulo\<close> among them, each with the empty string.
\<close>

theorem otros_defaults_counterexample:
  "keys (fst (smart_merge_fields ascii_upper ascii_matches ''otros'' [] [] [])) \<noteq> keys [] \<union> keys [] \<union> keys []
   \<and> map_of (fst (smart_merge_fields ascii_upper ascii_matches ''otros'' [] [] [])) ''titulo'' = Some []"
  unfolding smart_merge_fields_otros fst_conv keys_fold_setdefault map_of_fold_setdefault
    keys_merged
  by (simp add: expected_keys_def keys_def)

text \<open>
  Claim C3, amended. The declared-field defaults are applied for every type that
  \<open>expected_keys_map\<close> lists, the catch-all type included: for \<open>otros\<close> the keys of the
  returned field map are the keys of the three input maps together with the six declared
  keys, and a declared key that none of the three maps holds gets the empty string; for
  \<open>ine\<close>, \<open>curp\<close> and \<open>acta\<close> the keys are exactly the declared fields.
\<close>

theorem declared_defaults_all_types:
  "keys (fst (smart_merge_fields up rs ''otros'' tpl au tx))
      = keys tpl \<union> keys au \<union> keys tx \<union> set (expected_keys ''otros'')
   \<and> (\<forall>k \<in> set (expected_keys ''otros'') - (keys tpl \<union> keys au \<union> keys tx).
         map_of (fst (smart_merge_fields up rs ''otros'' tpl au tx)) k = Some [])
   \<and> (\<forall>tipo \<in> {''ine'', ''curp'', ''acta''}.
         keys (fst (smart_merge_fields up rs tipo tpl au tx)) = set (expected_keys tipo))"
proof (intro conjI ballI)
  show "keys (fst (smart_merge_fields up rs ''otros'' tpl au tx))
      = keys tpl \<union> keys au \<union> keys tx \<union> set (expected_keys ''otros'')"
    by (simp add: smart_merge_fields_otros keys_fold_setdefault keys_merged)
next
  fix k assume "k \<in> set (expected_keys ''otros'') - (keys tpl \<union> keys au \<union> keys tx)"
  then show "map_of (fst (smart_merge_fields up rs ''otros'' tpl au tx)) k = Some []"
    by (simp add: smart_merge_fields_otros map_of_fold_setdefault keys_merged)
next
  fix tipo :: string assume t: "tipo \<in> {''ine'', ''curp'', ''acta''}"
  show "keys (fst (smart_merge_fields up rs tipo tpl au tx)) = set (expected_keys tipo)"
    unfolding smart_merge_fields_fixed[OF t] fst_conv keys_fold_setdefault keys_fold_chosen
    using fst_field_patterns[OF t, symmetric] by (simp add: keys_def)
qed

lemma map_of_dict_update_distinct:
  assumes "distinct (map fst other)"
  shows "map_of (dict_update d other) k
           = (case map_of other k of None \<Rightarrow> map_of d k | Some v \<Rightarrow> Some v)"
proof (cases "map_of other k")
  case None
  then have "k \<notin> keys other" by (simp add: keys_def map_of_eq_None_iff)
  with None show ?thesis by (simp add: map_of_dict_update_notin)
next
  case (Some v)
  with map_of_dict_update_in [OF assms Some] show ?thesis by simp
qed

lemma map_of_merged:
  assumes "distinct (map fst tpl)" "distinct (map fst au)" "distinct (map fst tx)"
  shows "map_of (merged_of tpl au tx) k
           = (case map_of tx k of
                Some v \<Rightarrow> Some v
              | None \<Rightarrow> (case map_of au k of Some v \<Rightarrow> Some v | None \<Rightarrow> map_of tpl k))"
  unfolding merged_of_def
  by (simp add: map_of_dict_update_distinct assms split: option.splits)

lemma otros_entry:
  assumes "map_of (merged_of tpl au tx) k = Some v"
  shows "map_of (fst (smart_merge_fields up rs ''otros'' tpl au tx)) k = Some v"
    and "filter (\<lambda>d. field d = k) (snd (smart_merge_fields up rs ''otros'' tpl au tx))
           = [\<lparr>field = k, chosen_from = otros_source tpl au tx k, val = v\<rparr>]"
proof -
  from assms have mem: "(k, v) \<in> set (merged_of tpl au tx)" by (rule map_of_SomeD)
  then have "k \<in> keys (merged_of tpl au tx)" by (force simp: keys_def)
  with assms show "map_of (fst (smart_merge_fields up rs ''otros'' tpl au tx)) k = Some v"
    by (simp add: smart_merge_fields_otros map_of_fold_setdefault)
  show "filter (\<lambda>d. field d = k) (snd (smart_merge_fields up rs ''otros'' tpl au tx))
           = [\<lparr>field = k, chosen_from = otros_source tpl au tx k, val = v\<rparr>]"
    using filter_field_entries [OF distinct_merged mem, of "otros_source tpl au tx"]
    by (simp add: smart_merge_fields_otros)
qed

lemma otros_no_entry:
  assumes "map_of (merged_of tpl au tx) k = None"
  shows "filter (\<lambda>d. field d = k) (snd (smart_merge_fields up rs ''otros'' tpl au tx)) = []"
proof -
  from assms have "k \<notin> fst ` set (merged_of tpl au tx)" by (simp add: map_of_eq_None_iff)
  then show ?thesis
    by (force simp: smart_merge_fields_otros filter_empty_conv)
qed

text \<open>
  Claim C10. For \<open>otros\<close> the source is chosen by the presence of the key alone, the text
  map before the auto map before the template map, and the value is the one of the map that
  is named, whatever the values are: a key that the text map holds is decided \<open>text\<close>
  with the value of the text map; a key that only the auto and template maps may hold is
  decided \<open>auto\<close> with the value of the auto map; a key that only the template map holds is
  decided \<open>template\<close>; a key that no map holds has no decision. So when the text map
  holds the key with the empty string and the auto map holds it with a non-empty value, the
  final value is the empty string and the decision names the source \<open>text\<close>. The three
  maps are dictionaries: the keys of each are distinct.
\<close>

theorem otros_key_presence_decides:
  assumes "distinct (map fst tpl)" and "distinct (map fst au)" and "distinct (map fst tx)"
  shows "(\<forall>v. map_of tx k = Some v \<longrightarrow>
            map_of (fst (smart_merge_fields up rs ''otros'' tpl au tx)) k = Some v
            \<and> filter (\<lambda>d. field d = k) (snd (smart_merge_fields up rs ''otros'' tpl au tx))
                = [\<lparr>field = k, chosen_from = ''text'', val = v\<rparr>])
       \<and> (\<forall>v. map_of tx k = None \<and> map_of au k = Some v \<longrightarrow>
            map_of (fst (smart_merge_fields up rs ''otros'' tpl au tx)) k = Some v
            \<and> filter (\<lambda>d. field d = k) (snd (smart_merge_fields up rs ''otros'' tpl au tx))
                = [\<lparr>field = k, chosen_from = ''auto'', val = v\<rparr>])
       \<and> (\<forall>v. map_of tx k = None \<and> map_of au k = None \<and> map_of tpl k = Some v \<longrightarrow>
            map_of (fst (smart_merge_fields up rs ''otros'' tpl au tx)) k = Some v
            \<and> filter (\<lambda>d. field d = k) (snd (smart_merge_fields up rs ''otros'' tpl au tx))
                = [\<lparr>field = k, chosen_from = ''template'', val = v\<rparr>])
       \<and> (map_of tx k = None \<and> map_of au k = None \<and> map_of tpl k = None \<longrightarrow>
            filter (\<lambda>d. field d = k) (snd (smart_merge_fields up rs ''otros'' tpl au tx)) = [])
       \<and> (\<forall>v. map_of tx k = Some [] \<and> map_of au k = Some v \<and> v \<noteq> [] \<longrightarrow>
            map_of (fst (smart_merge_fields up rs ''otros'' tpl au tx)) k = Some []
            \<and> filter (\<lambda>d. field d = k) (snd (smart_merge_fields up rs ''otros'' tpl au tx))
                = [\<lparr>field = k, chosen_from = ''text'', val = []\<rparr>])"
proof -
  note m = map_of_merged [OF assms, of k]
  have text_case: "map_of (fst (smart_merge_fields up rs ''otros'' tpl au tx)) k = Some v
      \<and> filter (\<lambda>d. field d = k) (snd (smart_merge_fields up rs ''otros'' tpl au tx))
          = [\<lparr>field = k, chosen_from = ''text'', val = v\<rparr>]"
    if "map_of tx k = Some v" for v
  proof -
    from that m have e: "map_of (merged_of tpl au tx) k = Some v" by simp
    from that have "otros_source tpl au tx k = ''text''"
      by (simp add: otros_source_def has_key_def)
    with otros_entry [OF e, of up rs] show ?thesis by simp
  qed
  have auto_case: "map_of (fst (smart_merge_fields up rs ''otros'' tpl au tx)) k = Some v
      \<and> filter (\<lambda>d. field d = k) (snd (smart_merge_fields up rs ''otros'' tpl au tx))
          = [\<lparr>field = k, chosen_from = ''auto'', val = v\<rparr>]"
    if "map_of tx k = None" "map_of au k = Some v" for v
  proof -
    from that m have e: "map_of (merged_of tpl au tx) k = Some v" by simp
    from that have "otros_source tpl au tx k = ''auto''"
      by (simp add: otros_source_def has_key_def)
    with otros_entry [OF e, of up rs] show ?thesis by simp
  qed
  have template_case: "map_of (fst (smart_merge_fields up rs ''otros'' tpl au tx)) k = Some v
      \<and> filter (\<lambda>d. field d = k) (snd (smart_merge_fields up rs ''otros'' tpl au tx))
          = [\<lparr>field = k, chosen_from = ''template'', val = v\<rparr>]"
    if "map_of tx k = None" "map_of au k = None" "map_of tpl k = Some v" for v
  proof -
    from that m have e: "map_of (merged_of tpl au tx) k = Some v" by simp
    from that have "otros_source tpl au tx k = ''template''"
      by (simp add: otros_source_def has_key_def)
    with otros_entry [OF e, of up rs] show ?thesis by simp
  qed
  have none_case:
    "filter (\<lambda>d. field d = k) (snd (smart_merge_fields up rs ''otros'' tpl au tx)) = []"
    if "map_of tx k = None" "map_of au k = None" "map_of tpl k = None"
  proof -
    from that m have "map_of (merged_of tpl au tx) k = None" by simp
    then show ?thesis by (rule otros_no_entry)
  qed
  show ?thesis
    using text_case auto_case template_case none_case by blast
qed

theorem declared_defaults_all_types_witness:
  "''titulo'' \<in> set (expected_keys ''otros'')
      - (keys [] \<union> keys [(''folio'', ''A1'')] \<union> keys [(''folio'', ''A1-X''), (''emisor'', ''SEP'')])
   \<and> map_of (fst (smart_merge_fields ascii_upper ascii_matches ''otros'' [] [(''folio'', ''A1'')]
                    [(''folio'', ''A1-X''), (''emisor'', ''SEP'')])) ''titulo'' = Some []
   \<and> ''ine'' \<in> {''ine'', ''curp'', ''acta''}
   \<and> keys (fst (smart_merge_fields ascii_upper ascii_matches ''ine'' [] [(''folio'', ''A1'')]
                  [(''folio'', ''A1-X''), (''emisor'', ''SEP'')])) = set (expected_keys ''ine'')
   \<and> keys (fst (smart_merge_fields ascii_upper ascii_matches ''otros'' [] [(''folio'', ''A1'')]
                  [(''folio'', ''A1-X''), (''emisor'', ''SEP'')]))
       = keys [] \<union> keys [(''folio'', ''A1'')] \<union> keys [(''folio'', ''A1-X''), (''emisor'', ''SEP'')]
         \<union> set (expected_keys ''otros'')"
proof -
  have h1: "''titulo'' \<in> set (expected_keys ''otros'')
      - (keys [] \<union> keys [(''folio'', ''A1'')] \<union> keys [(''folio'', ''A1-X''), (''emisor'', ''SEP'')])"
    by (simp add: expected_keys_def keys_def)
  have h2: "''ine'' \<in> {''ine'', ''curp'', ''acta''}" by simp
  note T = declared_defaults_all_types[of ascii_upper ascii_matches "[]" "[(''folio'', ''A1'')]"
        "[(''folio'', ''A1-X''), (''emisor'', ''SEP'')]"]
  from T have c1: "keys (fst (smart_merge_fields ascii_upper ascii_matches ''otros'' [] [(''folio'', ''A1'')]
                  [(''folio'', ''A1-X''), (''emisor'', ''SEP'')]))
       = keys [] \<union> keys [(''folio'', ''A1'')] \<union> keys [(''folio'', ''A1-X''), (''emisor'', ''SEP'')]
         \<union> set (expected_keys ''otros'')"
    by (rule conjunct1)
  from T have c2: "map_of (fst (smart_merge_fields ascii_upper ascii_matches ''otros'' [] [(''folio'', ''A1'')]
                    [(''folio'', ''A1-X''), (''emisor'', ''SEP'')])) ''titulo'' = Some []"
    using h1 by (elim conjE bspec)
  from T have c3: "keys (fst (smart_merge_fields ascii_upper ascii_matches ''ine'' [] [(''folio'', ''A1'')]
                  [(''folio'', ''A1-X''), (''emisor'', ''SEP'')])) = set (expected_keys ''ine'')"
    using h2 by (elim conjE bspec)
  show ?thesis
    by (intro conjI h1 h2 c1 c2 c3)
qed

theorem otros_key_presence_decides_witness:
  "distinct (map fst [(''titulo'', ''T''), (''folio'', ''F0'')])
   \<and> distinct (map fst [(''folio'', ''A1''), (''emisor'', ''SEP'')])
   \<and> distinct (map fst [(''folio'', [])])
   \<and> map_of (fst (smart_merge_fields ascii_upper ascii_matches ''otros''
          [(''titulo'', ''T''), (''folio'', ''F0'')] [(''folio'', ''A1''), (''emisor'', ''SEP'')]
          [(''folio'', [])])) ''folio'' = Some []
   \<and> filter (\<lambda>d. field d = ''folio'')
        (snd (smart_merge_fields ascii_upper ascii_matches ''otros''
          [(''titulo'', ''T''), (''folio'', ''F0'')] [(''folio'', ''A1''), (''emisor'', ''SEP'')]
          [(''folio'', [])]))
       = [\<lparr>field = ''folio'', chosen_from = ''text'', val = []\<rparr>]
   \<and> filter (\<lambda>d. field d = ''emisor'')
        (snd (smart_merge_fields ascii_upper ascii_matches ''otros''
          [(''titulo'', ''T''), (''folio'', ''F0'')] [(''folio'', ''A1''), (''emisor'', ''SEP'')]
          [(''folio'', [])]))
       = [\<lparr>field = ''emisor'', chosen_from = ''auto'', val = ''SEP''\<rparr>]
   \<and> filter (\<lambda>d. field d = ''titulo'')
        (snd (smart_merge_fields ascii_upper ascii_matches ''otros''
          [(''titulo'', ''T''), (''folio'', ''F0'')] [(''folio'', ''A1''), (''emisor'', ''SEP'')]
          [(''folio'', [])]))
       = [\<lparr>field = ''titulo'', chosen_from = ''template'', val = ''T''\<rparr>]
   \<and> filter (\<lambda>d. field d = ''rfc_detectado'')
        (snd (smart_merge_fields ascii_upper ascii_matches ''otros''
          [(''titulo'', ''T''), (''folio'', ''F0'')] [(''folio'', ''A1''), (''emisor'', ''SEP'')]
          [(''folio'', [])]))
       = []"
proof -
  have h1: "distinct (map fst [(''titulo'', ''T''), (''folio'', ''F0'')])" by simp
  have h2: "distinct (map fst [(''folio'', ''A1''), (''emisor'', ''SEP'')])" by simp
  have h3: "distinct (map fst [(''folio'', ([]::string))])" by simp
  note T = otros_key_presence_decides [OF h1 h2 h3, of _ ascii_upper ascii_matches]
  show ?thesis
    using h1 h2 h3 T [of "''folio''"] T [of "''emisor''"] T [of "''titulo''"]
      T [of "''rfc_detectado''"]
    by simp
qed

section \<open>Properties of the document type detector\<close>

lemma words_at_append:
  assumes "w \<noteq> []"
  shows "bounded_at (\<lambda>m. m = w) (length w) prev (w @ post)
           \<longleftrightarrow> boundary prev (w @ post) \<and> boundary (Some (last w)) post"
  using assms by (simp add: bounded_at_def nth_append last_conv_nth)

lemma words_at_split:
  assumes "bounded_at (\<lambda>m. m = w) (length w) prev s"
  shows "s = w @ drop (length w) s"
proof -
  from assms have "take (length w) s = w" by (simp add: bounded_at_def)
  then have "take (length w) s @ drop (length w) s = w @ drop (length w) s" by simp
  then show ?thesis by simp
qed

lemma search_words_intro:
  assumes "w \<noteq> []"
  shows "boundary (if pre = [] then prev else Some (last pre)) (w @ post)
         \<Longrightarrow> boundary (Some (last w)) post
         \<Longrightarrow> search_from (WORDS w) prev (pre @ w @ post) \<noteq> None"
proof (induction pre arbitrary: prev)
  case Nil
  obtain c cs where w: "w @ post = c # cs" using assms by (cases w) auto
  have "bounded_at (\<lambda>m. m = w) (length w) prev (w @ post)"
    using Nil assms by (simp add: words_at_append)
  then show ?case by (simp add: w[symmetric]) (simp add: w)
next
  case (Cons c pre)
  have "boundary (if pre = [] then Some c else Some (last pre)) (w @ post)"
    using Cons.prems(1) by (simp split: if_splits)
  from Cons.IH[OF this Cons.prems(2)] show ?case
    by (simp split: option.splits)
qed

lemma search_words_elim:
  assumes "w \<noteq> []"
  shows "search_from (WORDS w) prev s \<noteq> None \<Longrightarrow>
         \<exists>pre post. s = pre @ w @ post
            \<and> boundary (if pre = [] then prev else Some (last pre)) (w @ post)
            \<and> boundary (Some (last w)) post"
proof (induction s arbitrary: prev)
  case Nil
  then show ?case using assms by (simp add: bounded_at_def split: if_splits)
next
  case (Cons c cs)
  show ?case
  proof (cases "bounded_at (\<lambda>m. m = w) (length w) prev (c # cs)")
    case True
    let ?post = "drop (length w) (c # cs)"
    have s: "c # cs = w @ ?post" using True by (rule words_at_split)
    from True have "bounded_at (\<lambda>m. m = w) (length w) prev (w @ ?post)" using s by simp
    then have "boundary prev (w @ ?post) \<and> boundary (Some (last w)) ?post"
      using assms by (simp add: words_at_append)
    then have "c # cs = [] @ w @ ?post
            \<and> boundary (if ([]::string) = [] then prev else Some (last [])) (w @ ?post)
            \<and> boundary (Some (last w)) ?post"
      using s by simp
    then show ?thesis by blast
  next
    case False
    with Cons.prems have "search_from (WORDS w) (Some c) cs \<noteq> None" by simp
    from Cons.IH[OF this] obtain pre post where p: "cs = pre @ w @ post"
      "boundary (if pre = [] then Some c else Some (last pre)) (w @ post)"
      "boundary (Some (last w)) post" by blast
    then have "c # cs = (c # pre) @ w @ post
        \<and> boundary (if c # pre = [] then prev else Some (last (c # pre))) (w @ post)
        \<and> boundary (Some (last w)) post"
      by (simp split: if_splits)
    then show ?thesis by blast
  qed
qed

lemma matches_words_iff:
  assumes "w \<noteq> []" and "is_word (hd w)" and "is_word (last w)"
  shows "ascii_matches (WORDS w) t \<longleftrightarrow> contains_words w t"
proof
  assume "ascii_matches (WORDS w) t"
  then have "search_from (WORDS w) None t \<noteq> None"
    by (simp add: ascii_matches_def ascii_search_def)
  from search_words_elim[OF assms(1) this] obtain pre post where p: "t = pre @ w @ post"
    "boundary (if pre = [] then None else Some (last pre)) (w @ post)"
    "boundary (Some (last w)) post" by blast
  obtain a as where w: "w = a # as" using assms(1) by (cases w) auto
  have "pre = [] \<or> \<not> is_word (last pre)"
    using p(2) assms(2) by (auto simp: boundary_def w split: if_splits)
  moreover have "post = [] \<or> \<not> is_word (hd post)"
    using p(3) assms(3) by (cases post) (auto simp: boundary_def)
  ultimately show "contains_words w t" using p(1) unfolding contains_words_def by blast
next
  assume "contains_words w t"
  then obtain pre post where p: "t = pre @ w @ post" "pre = [] \<or> \<not> is_word (last pre)"
    "post = [] \<or> \<not> is_word (hd post)" unfolding contains_words_def by blast
  obtain a as where w: "w = a # as" using assms(1) by (cases w) auto
  have b1: "boundary (if pre = [] then None else Some (last pre)) (w @ post)"
    using p(2) assms(2) by (auto simp: boundary_def w)
  have b2: "boundary (Some (last w)) post"
    using p(3) assms(3) by (cases post) (auto simp: boundary_def)
  from search_words_intro[OF assms(1) b1 b2] show "ascii_matches (WORDS w) t"
    by (simp add: ascii_matches_def ascii_search_def p(1))
qed

lemma is_word_letters [simp]:
  "is_word CHR ''A''" "is_word CHR ''O''" "is_word CHR ''I''" "is_word CHR ''C''"
  "is_word CHR ''L''" "is_word CHR ''R''" "is_word CHR ''N''" "is_word CHR ''P''"
  by (simp_all add: is_word_def is_AZ_def)

lemma matches_acta_de_nacimiento: "ascii_matches (WORDS ''ACTA DE NACIMIENTO'') t = contains_words ''ACTA DE NACIMIENTO'' t"
  by (rule matches_words_iff) simp_all

lemma matches_oficial_del_registro: "ascii_matches (WORDS ''OFICIAL DEL REGISTRO'') t = contains_words ''OFICIAL DEL REGISTRO'' t"
  by (rule matches_words_iff) simp_all

lemma matches_instituto: "ascii_matches (WORDS ''INSTITUTO NACIONAL ELECTORAL'') t
       = contains_words ''INSTITUTO NACIONAL ELECTORAL'' t"
  by (rule matches_words_iff) simp_all

lemma matches_credencial: "ascii_matches (WORDS ''CREDENCIAL PARA VOTAR'') t = contains_words ''CREDENCIAL PARA VOTAR'' t"
  by (rule matches_words_iff) simp_all

lemma matches_clave_unica: "ascii_matches (WORDS ''CLAVE UNICA DE REGISTRO DE POBLACION'') t
       = contains_words ''CLAVE UNICA DE REGISTRO DE POBLACION'' t"
  by (rule matches_words_iff) simp_all

lemma matches_curp_token: "ascii_matches (WORDS ''CURP'') t = contains_words ''CURP'' t"
  by (rule matches_words_iff) simp_all

lemma detect_type_rules:
  "detect_type ud text =
     (let T = norm_text ud text in
      if contains_words ''ACTA DE NACIMIENTO'' T \<or> contains_words ''OFICIAL DEL REGISTRO'' T
      then ''acta''
      else if contains_words ''INSTITUTO NACIONAL ELECTORAL'' T
           \<or> contains_words ''CREDENCIAL PARA VOTAR'' T then ''ine''
      else if contains_words ''CLAVE UNICA DE REGISTRO DE POBLACION'' T
           \<or> contains_words ''CURP'' T then ''curp''
      else ''auto'')"
  unfolding detect_type_def matches_acta_de_nacimiento matches_oficial_del_registro matches_instituto matches_credencial matches_clave_unica matches_curp_token by (rule refl)

text \<open>
  Claim C7 says that a normalised text that contains the phrase ACTA DE NACIMIENTO and the
  token CURP is classified \<open>acta\<close>. The rules look for their phrases between word
  boundaries: the normalised text \<open>1ACTA DE NACIMIENTO CURP\<close> contains both, the phrase
  right after a digit, and is classified \<open>curp\<close>.
\<close>

theorem detect_type_acta_counterexample:
  "''1ACTA DE NACIMIENTO CURP'' = ''1'' @ ''ACTA DE NACIMIENTO'' @ '' CURP''
   \<and> ''1ACTA DE NACIMIENTO CURP'' = ''1ACTA DE NACIMIENTO '' @ ''CURP'' @ []
   \<and> norm_text ascii_only ''1ACTA DE NACIMIENTO CURP'' = ''1ACTA DE NACIMIENTO CURP''
   \<and> detect_type ascii_only ''1ACTA DE NACIMIENTO CURP'' = ''curp''"
  by code_simp

text \<open>
  Claim C7, amended. A phrase is contained as whole words when an occurrence of it neither
  follows nor precedes a letter, a digit or an underscore. \<open>detect_type\<close> tries three rules
  on the normalised text, in this order, and the first that matches decides: \<open>acta\<close> when
  it contains ACTA DE NACIMIENTO or OFICIAL DEL REGISTRO as whole words; \<open>ine\<close> when it
  contains INSTITUTO NACIONAL ELECTORAL or CREDENCIAL PARA VOTAR; \<open>curp\<close> when it contains
  CLAVE UNICA DE REGISTRO DE POBLACION or CURP; a text that matches none of the rules is
  classified \<open>auto\<close>. So a text that contains both ACTA DE NACIMIENTO and CURP as whole
  words is classified \<open>acta\<close>, never \<open>curp\<close>. For a text that is normalised already, the
  normalised form is the text itself.
\<close>

theorem detect_type_acta_precedence:
  "(let T = norm_text ud text in
      (contains_words ''ACTA DE NACIMIENTO'' T \<or> contains_words ''OFICIAL DEL REGISTRO'' T
         \<longrightarrow> detect_type ud text = ''acta'')
    \<and> (\<not> contains_words ''ACTA DE NACIMIENTO'' T \<and> \<not> contains_words ''OFICIAL DEL REGISTRO'' T
         \<and> (contains_words ''INSTITUTO NACIONAL ELECTORAL'' T
            \<or> contains_words ''CREDENCIAL PARA VOTAR'' T)
         \<longrightarrow> detect_type ud text = ''ine'')
    \<and> (\<not> contains_words ''ACTA DE NACIMIENTO'' T \<and> \<not> contains_words ''OFICIAL DEL REGISTRO'' T
         \<and> \<not> contains_words ''INSTITUTO NACIONAL ELECTORAL'' T
         \<and> \<not> contains_words ''CREDENCIAL PARA VOTAR'' T
         \<and> (contains_words ''CLAVE UNICA DE REGISTRO DE POBLACION'' T
            \<or> contains_words ''CURP'' T)
         \<longrightarrow> detect_type ud text = ''curp'')
    \<and> (\<not> contains_words ''ACTA DE NACIMIENTO'' T \<and> \<not> contains_words ''OFICIAL DEL REGISTRO'' T
         \<and> \<not> contains_words ''INSTITUTO NACIONAL ELECTORAL'' T
         \<and> \<not> contains_words ''CREDENCIAL PARA VOTAR'' T
         \<and> \<not> contains_words ''CLAVE UNICA DE REGISTRO DE POBLACION'' T
         \<and> \<not> contains_words ''CURP'' T
         \<longrightarrow> detect_type ud text = ''auto'')
    \<and> (contains_words ''ACTA DE NACIMIENTO'' T \<and> contains_words ''CURP'' T
         \<longrightarrow> detect_type ud text = ''acta'' \<and> detect_type ud text \<noteq> ''curp''))"
  unfolding Let_def
proof (intro conjI impI)
  assume "contains_words ''ACTA DE NACIMIENTO'' (norm_text ud text)
          \<or> contains_words ''OFICIAL DEL REGISTRO'' (norm_text ud text)"
  then show "detect_type ud text = ''acta''"
    by (simp add: detect_type_rules Let_def)
next
  assume "\<not> contains_words ''ACTA DE NACIMIENTO'' (norm_text ud text)
      \<and> \<not> contains_words ''OFICIAL DEL REGISTRO'' (norm_text ud text)
      \<and> (contains_words ''INSTITUTO NACIONAL ELECTORAL'' (norm_text ud text)
         \<or> contains_words ''CREDENCIAL PARA VOTAR'' (norm_text ud text))"
  then show "detect_type ud text = ''ine''"
    by (simp add: detect_type_rules Let_def)
next
  assume "\<not> contains_words ''ACTA DE NACIMIENTO'' (norm_text ud text)
      \<and> \<not> contains_words ''OFICIAL DEL REGISTRO'' (norm_text ud text)
      \<and> \<not> contains_words ''INSTITUTO NACIONAL ELECTORAL'' (norm_text ud text)
      \<and> \<not> contains_words ''CREDENCIAL PARA VOTAR'' (norm_text ud text)
      \<and> (contains_words ''CLAVE UNICA DE REGISTRO DE POBLACION'' (norm_text ud text)
         \<or> contains_words ''CURP'' (norm_text ud text))"
  then show "detect_type ud text = ''curp''"
    by (simp add: detect_type_rules Let_def)
next
  assume "\<not> contains_words ''ACTA DE NACIMIENTO'' (norm_text ud text)
      \<and> \<not> contains_words ''OFICIAL DEL REGISTRO'' (norm_text ud text)
      \<and> \<not> contains_words ''INSTITUTO NACIONAL ELECTORAL'' (norm_text ud text)
      \<and> \<not> contains_words ''CREDENCIAL PARA VOTAR'' (norm_text ud text)
      \<and> \<not> contains_words ''CLAVE UNICA DE REGISTRO DE POBLACION'' (norm_text ud text)
      \<and> \<not> contains_words ''CURP'' (norm_text ud text)"
  then show "detect_type ud text = ''auto''"
    by (simp add: detect_type_rules Let_def)
next
  assume a: "contains_words ''ACTA DE NACIMIENTO'' (norm_text ud text)
      \<and> contains_words ''CURP'' (norm_text ud text)"
  then show "detect_type ud text = ''acta''"
    by (simp add: detect_type_rules Let_def)
  then show "detect_type ud text \<noteq> ''curp''" by simp
qed

lemma norm_text_example_acta:
  "norm_text ascii_only ''Acta de  Nacimiento - curp: X'' = ''ACTA DE NACIMIENTO - CURP: X''"
  by code_simp

lemma norm_text_example_ine:
  "norm_text ascii_only ''Credencial para votar, CURP X'' = ''CREDENCIAL PARA VOTAR, CURP X''"
  by code_simp

lemma norm_text_example_curp: "norm_text ascii_only ''mi curp es X'' = ''MI CURP ES X''"
  by code_simp

lemma norm_text_example_none: "norm_text ascii_only ''hola, mundo'' = ''HOLA, MUNDO''"
  by code_simp

theorem detect_type_acta_precedence_witness:
  "contains_words ''ACTA DE NACIMIENTO'' (norm_text ascii_only ''Acta de  Nacimiento - curp: X'')
   \<and> contains_words ''CURP'' (norm_text ascii_only ''Acta de  Nacimiento - curp: X'')
   \<and> detect_type ascii_only ''Acta de  Nacimiento - curp: X'' = ''acta''
   \<and> \<not> contains_words ''ACTA DE NACIMIENTO'' (norm_text ascii_only ''Credencial para votar, CURP X'')
   \<and> \<not> contains_words ''OFICIAL DEL REGISTRO'' (norm_text ascii_only ''Credencial para votar, CURP X'')
   \<and> contains_words ''CREDENCIAL PARA VOTAR'' (norm_text ascii_only ''Credencial para votar, CURP X'')
   \<and> contains_words ''CURP'' (norm_text ascii_only ''Credencial para votar, CURP X'')
   \<and> detect_type ascii_only ''Credencial para votar, CURP X'' = ''ine''
   \<and> \<not> contains_words ''ACTA DE NACIMIENTO'' (norm_text ascii_only ''mi curp es X'')
   \<and> \<not> contains_words ''OFICIAL DEL REGISTRO'' (norm_text ascii_only ''mi curp es X'')
   \<and> \<not> contains_words ''INSTITUTO NACIONAL ELECTORAL'' (norm_text ascii_only ''mi curp es X'')
   \<and> \<not> contains_words ''CREDENCIAL PARA VOTAR'' (norm_text ascii_only ''mi curp es X'')
   \<and> contains_words ''CURP'' (norm_text ascii_only ''mi curp es X'')
   \<and> detect_type ascii_only ''mi curp es X'' = ''curp''
   \<and> \<not> contains_words ''ACTA DE NACIMIENTO'' (norm_text ascii_only ''hola, mundo'')
   \<and> \<not> contains_words ''OFICIAL DEL REGISTRO'' (norm_text ascii_only ''hola, mundo'')
   \<and> \<not> contains_words ''INSTITUTO NACIONAL ELECTORAL'' (norm_text ascii_only ''hola, mundo'')
   \<and> \<not> contains_words ''CREDENCIAL PARA VOTAR'' (norm_text ascii_only ''hola, mundo'')
   \<and> \<not> contains_words ''CLAVE UNICA DE REGISTRO DE POBLACION'' (norm_text ascii_only ''hola, mundo'')
   \<and> \<not> contains_words ''CURP'' (norm_text ascii_only ''hola, mundo'')
   \<and> detect_type ascii_only ''hola, mundo'' = ''auto''"
proof -
  note to_matcher = matches_acta_de_nacimiento [symmetric] matches_oficial_del_registro [symmetric]
    matches_instituto [symmetric] matches_credencial [symmetric] matches_clave_unica [symmetric]
    matches_curp_token [symmetric]
  have a: "contains_words ''ACTA DE NACIMIENTO''
              (norm_text ascii_only ''Acta de  Nacimiento - curp: X'')"
    "contains_words ''CURP'' (norm_text ascii_only ''Acta de  Nacimiento - curp: X'')"
    unfolding to_matcher norm_text_example_acta by code_simp+
  have i: "\<not> contains_words ''ACTA DE NACIMIENTO''
              (norm_text ascii_only ''Credencial para votar, CURP X'')"
    "\<not> contains_words ''OFICIAL DEL REGISTRO''
              (norm_text ascii_only ''Credencial para votar, CURP X'')"
    "contains_words ''CREDENCIAL PARA VOTAR''
              (norm_text ascii_only ''Credencial para votar, CURP X'')"
    "contains_words ''CURP'' (norm_text ascii_only ''Credencial para votar, CURP X'')"
    unfolding to_matcher norm_text_example_ine by code_simp+
  have c: "\<not> contains_words ''ACTA DE NACIMIENTO'' (norm_text ascii_only ''mi curp es X'')"
    "\<not> contains_words ''OFICIAL DEL REGISTRO'' (norm_text ascii_only ''mi curp es X'')"
    "\<not> contains_words ''INSTITUTO NACIONAL ELECTORAL'' (norm_text ascii_only ''mi curp es X'')"
    "\<not> contains_words ''CREDENCIAL PARA VOTAR'' (norm_text ascii_only ''mi curp es X'')"
    "contains_words ''CURP'' (norm_text ascii_only ''mi curp es X'')"
    unfolding to_matcher norm_text_example_curp by code_simp+
  have n: "\<not> contains_words ''ACTA DE NACIMIENTO'' (norm_text ascii_only ''hola, mundo'')"
    "\<not> contains_words ''OFICIAL DEL REGISTRO'' (norm_text ascii_only ''hola, mundo'')"
    "\<not> contains_words ''INSTITUTO NACIONAL ELECTORAL'' (norm_text ascii_only ''hola, mundo'')"
    "\<not> contains_words ''CREDENCIAL PARA VOTAR'' (norm_text ascii_only ''hola, mundo'')"
    "\<not> contains_words ''CLAVE UNICA DE REGISTRO DE POBLACION''
            (norm_text ascii_only ''hola, mundo'')"
    "\<not> contains_words ''CURP'' (norm_text ascii_only ''hola, mundo'')"
    unfolding to_matcher norm_text_example_none by code_simp+
  have ra: "detect_type ascii_only ''Acta de  Nacimiento - curp: X'' = ''acta''"
    using detect_type_acta_precedence [of ascii_only "''Acta de  Nacimiento - curp: X''"] a
    unfolding Let_def by blast
  have ri: "detect_type ascii_only ''Credencial para votar, CURP X'' = ''ine''"
    using detect_type_acta_precedence [of ascii_only "''Credencial para votar, CURP X''"] i
    unfolding Let_def by blast
  have rc: "detect_type ascii_only ''mi curp es X'' = ''curp''"
    using detect_type_acta_precedence [of ascii_only "''mi curp es X''"] c
    unfolding Let_def by blast
  have rn: "detect_type ascii_only ''hola, mundo'' = ''auto''"
    using detect_type_acta_precedence [of ascii_only "''hola, mundo''"] n
    unfolding Let_def by blast
  show ?thesis by (intro conjI a i c n ra ri rc rn)
qed

subsection \<open>Geometry coercer\<close>

lemma fle_total: "a \<noteq> NaN \<Longrightarrow> b \<noteq> NaN \<Longrightarrow> fle a b \<or> fle b a"
  by (cases a; cases b) auto

lemma clamp_Fin: "clamp (Fin r) = Fin (max 0 (min 1 r))"
  by (auto simp: clamp_def py_max_def py_min_def flt_def)

lemma clamp_NegInf: "clamp NegInf = Fin 0"
  by (simp add: clamp_def py_max_def py_min_def flt_def)

lemma clamp_PosInf: "clamp PosInf = Fin 1"
  by (simp add: clamp_def py_max_def py_min_def flt_def)

lemma clamp_mono:
  assumes "fle a b"
  shows "\<exists>r s. clamp a = Fin r \<and> clamp b = Fin s \<and> 0 \<le> r \<and> r \<le> s \<and> s \<le> 1"
  using assms by (cases a; cases b) (auto simp: clamp_Fin clamp_NegInf clamp_PosInf)

lemma clamp_NaN: "clamp NaN = Fin 1"
  by (simp add: clamp_def py_max_def py_min_def flt_def)

lemma clamp_range: "\<exists>r. clamp a = Fin r \<and> 0 \<le> r \<and> r \<le> 1"
  by (cases a) (auto simp: clamp_Fin clamp_NegInf clamp_PosInf clamp_NaN)

lemma clamp_not_below: "a \<noteq> NaN \<Longrightarrow> \<not> flt a (Fin 1) \<Longrightarrow> clamp a = Fin 1"
  by (cases a) (auto simp: clamp_Fin clamp_PosInf flt_def)

lemma order_axis:
  "\<exists>lo hi r s. (if fle a b then (a, b) else (b, a)) = (lo, hi)
     \<and> clamp lo = Fin r \<and> clamp hi = Fin s \<and> 0 \<le> r \<and> r \<le> 1 \<and> 0 \<le> s \<and> s \<le> 1
     \<and> (order_safe a b \<longrightarrow> r \<le> s)"
proof (cases "fle a b")
  case True
  from clamp_mono [OF True] obtain r s where
    "clamp a = Fin r" "clamp b = Fin s" "0 \<le> r" "r \<le> s" "s \<le> 1" by blast
  with True show ?thesis by auto
next
  case False
  obtain r where r: "clamp b = Fin r" "0 \<le> r" "r \<le> 1" using clamp_range by blast
  obtain s where s: "clamp a = Fin s" "0 \<le> s" "s \<le> 1" using clamp_range by blast
  have "r \<le> s" if safe: "order_safe a b"
  proof (cases "a = NaN")
    case True
    with s(1) r(3) show ?thesis by (simp add: clamp_NaN)
  next
    case a: False
    show ?thesis
    proof (cases "b = NaN")
      case True
      with safe have "\<not> flt a (Fin 1)" by (simp add: order_safe_def)
      from clamp_not_below [OF a this] s(1) r(3) show ?thesis by simp
    next
      case b: False
      from fle_total [OF a b] False have "fle b a" by simp
      from clamp_mono [OF this] r(1) s(1) show ?thesis by auto
    qed
  qed
  with False r s show ?thesis by auto
qed

lemma order_clamp_box:
  "\<exists>xmin ymin xmax ymax.
     order_clamp x0 y0 x1 y1 = (Fin xmin, Fin ymin, Fin xmax, Fin ymax)
     \<and> 0 \<le> xmin \<and> xmin \<le> 1 \<and> 0 \<le> ymin \<and> ymin \<le> 1
     \<and> 0 \<le> xmax \<and> xmax \<le> 1 \<and> 0 \<le> ymax \<and> ymax \<le> 1
     \<and> (order_safe x0 x1 \<longrightarrow> xmin \<le> xmax) \<and> (order_safe y0 y1 \<longrightarrow> ymin \<le> ymax)"
proof -
  from order_axis [of x0 x1] obtain xa xb r s where
    x: "(if fle x0 x1 then (x0, x1) else (x1, x0)) = (xa, xb)"
      "clamp xa = Fin r" "clamp xb = Fin s" "0 \<le> r" "r \<le> 1" "0 \<le> s" "s \<le> 1"
      "order_safe x0 x1 \<longrightarrow> r \<le> s"
    by blast
  from order_axis [of y0 y1] obtain ya yb t u where
    y: "(if fle y0 y1 then (y0, y1) else (y1, y0)) = (ya, yb)"
      "clamp ya = Fin t" "clamp yb = Fin u" "0 \<le> t" "t \<le> 1" "0 \<le> u" "u \<le> 1"
      "order_safe y0 y1 \<longrightarrow> t \<le> u"
    by blast
  have "order_clamp x0 y0 x1 y1 = (Fin r, Fin t, Fin s, Fin u)"
    unfolding order_clamp_def x(1) y(1) by (simp add: x(2,3) y(2,3))
  with x(4-8) y(4-8) show ?thesis by blast
qed

lemma order_clamp_unit: "order_clamp (Fin 0) (Fin 0) (Fin 1) (Fin 1) = unit_box"
  by (simp add: order_clamp_def clamp_Fin unit_box_def)

lemma order_clamp_id:
  assumes "0 \<le> xmin" "xmin \<le> xmax" "xmax \<le> 1" "0 \<le> ymin" "ymin \<le> ymax" "ymax \<le> 1"
  shows "order_clamp (Fin xmin) (Fin ymin) (Fin xmax) (Fin ymax)
           = (Fin xmin, Fin ymin, Fin xmax, Fin ymax)"
  using assms by (simp add: order_clamp_def clamp_Fin)

lemma py_float_number:
  assumes "number_of a = Some r" "\<bar>r\<bar> \<le> 1"
  shows "py_float sf a = Inr (Fin r)" "is_number a"
proof -
  show "is_number a" using assms(1) by (cases a) auto
  show "py_float sf a = Inr (Fin r)"
  proof (cases a)
    case (PInt n)
    with assms have "\<bar>n\<bar> \<le> 1" by auto
    hence "\<not> \<bar>n\<bar> \<ge> 2 ^ 1024 - 2 ^ 970" by simp
    with PInt assms(1) show ?thesis by (simp add: float_of_int_def)
  next
    case (PFloat f)
    with assms(1) show ?thesis by (cases f) auto
  qed (use assms(1) in auto)
qed


lemma coerce_geom_dict:
  "coerce_geom sf (PDict kvs) =
     Inr (order_clamp (to_float_default sf (dict_get kvs ''x0'') (Fin 0))
                      (to_float_default sf (dict_get kvs ''y0'') (Fin 0))
                      (to_float_default sf (dict_get kvs ''x1'') (Fin 1))
                      (to_float_default sf (dict_get kvs ''y1'') (Fin 1)))"
  by (simp add: coerce_geom_def)

lemma corners_seq_four:
  assumes "py_float sf a = Inr x0" "py_float sf b = Inr y0"
    "py_float sf c = Inr x1" "py_float sf d = Inr y1"
    "is_number a" "is_number b" "is_number c" "is_number d"
  shows "corners_seq sf [a, b, c, d] = Inr (x0, y0, x1, y1)"
  using assms by (simp add: corners_seq_def)

text \<open>
  Claim C8 (geometry round-trip). A rectangle with \<open>0 \<le> xmin \<le> xmax \<le> 1\<close> and
  \<open>0 \<le> ymin \<le> ymax \<le> 1\<close>, whose coordinates are integers or floats, is returned
  unchanged by \<open>_coerce_geom\<close> when it is given as a list or a tuple
  \<open>(xmin, ymin, xmax, ymax)\<close>, and when it is given as a dictionary that has the keys
  \<open>x0, y0, x1, y1\<close> with these values, whatever its other keys are. The parser of strings
  plays no part.
\<close>

theorem geometry_round_trip:
  assumes "0 \<le> xmin" "xmin \<le> xmax" "xmax \<le> 1" "0 \<le> ymin" "ymin \<le> ymax" "ymax \<le> 1"
    and "number_of a = Some xmin" "number_of b = Some ymin"
    and "number_of c = Some xmax" "number_of d = Some ymax"
  shows "coerce_geom sf (PList [a, b, c, d]) = Inr (Fin xmin, Fin ymin, Fin xmax, Fin ymax)
       \<and> coerce_geom sf (PTuple [a, b, c, d]) = Inr (Fin xmin, Fin ymin, Fin xmax, Fin ymax)
       \<and> (\<forall>kvs. map_of kvs ''x0'' = Some a \<and> map_of kvs ''y0'' = Some b
                \<and> map_of kvs ''x1'' = Some c \<and> map_of kvs ''y1'' = Some d
              \<longrightarrow> coerce_geom sf (PDict kvs)
                    = Inr (Fin xmin, Fin ymin, Fin xmax, Fin ymax))"
proof -
  have a: "py_float sf a = Inr (Fin xmin)" "is_number a"
    using py_float_number [OF assms(7)] assms(1-3) by auto
  have b: "py_float sf b = Inr (Fin ymin)" "is_number b"
    using py_float_number [OF assms(8)] assms(4-6) by auto
  have c: "py_float sf c = Inr (Fin xmax)" "is_number c"
    using py_float_number [OF assms(9)] assms(1-3) by auto
  have d: "py_float sf d = Inr (Fin ymax)" "is_number d"
    using py_float_number [OF assms(10)] assms(4-6) by auto
  have box: "order_clamp (Fin xmin) (Fin ymin) (Fin xmax) (Fin ymax)
               = (Fin xmin, Fin ymin, Fin xmax, Fin ymax)"
    by (rule order_clamp_id [OF assms(1-6)])
  have seq: "corners_seq sf [a, b, c, d] = Inr (Fin xmin, Fin ymin, Fin xmax, Fin ymax)"
    by (rule corners_seq_four [OF a(1) b(1) c(1) d(1) a(2) b(2) c(2) d(2)])
  have dict: "coerce_geom sf (PDict kvs) = Inr (Fin xmin, Fin ymin, Fin xmax, Fin ymax)"
    if "map_of kvs ''x0'' = Some a" "map_of kvs ''y0'' = Some b"
       "map_of kvs ''x1'' = Some c" "map_of kvs ''y1'' = Some d" for kvs
    using that a b c d box by (simp add: coerce_geom_dict dict_get_def to_float_default_def)
  from seq box dict show ?thesis by (simp add: coerce_geom_def)
qed

theorem geometry_round_trip_witness:
  "coerce_geom no_strings (PList [PFloat (Fin (1/4)), PInt 0, PFloat (Fin (3/4)), PInt 1])
     = Inr (Fin (1/4), Fin 0, Fin (3/4), Fin 1)
   \<and> coerce_geom no_strings (PTuple [PFloat (Fin (1/4)), PInt 0, PFloat (Fin (3/4)), PInt 1])
     = Inr (Fin (1/4), Fin 0, Fin (3/4), Fin 1)
   \<and> coerce_geom no_strings
        (PDict [(''x1'', PFloat (Fin (3/4))), (''y1'', PInt 1), (''label'', PStr ''box''),
                (''x0'', PFloat (Fin (1/4))), (''y0'', PInt 0)])
     = Inr (Fin (1/4), Fin 0, Fin (3/4), Fin 1)"
  using geometry_round_trip [of "1/4" "3/4" 0 1 "PFloat (Fin (1/4))" "PInt 0"
      "PFloat (Fin (3/4))" "PInt 1" no_strings]
  by simp


lemma floats_numbers:
  assumes "\<forall>z \<in> set xs. is_number z \<and> py_float sf z \<noteq> Inl OverflowError"
  shows "\<exists>vs. floats sf xs = Inr vs"
  using assms
proof (induction xs)
  case Nil
  show ?case by simp
next
  case (Cons x xs)
  then obtain vs where vs: "floats sf xs = Inr vs" by auto
  from Cons.prems have x: "is_number x" "py_float sf x \<noteq> Inl OverflowError" by auto
  then obtain v where v: "py_float sf x = Inr v"
    by (cases x) (auto simp: float_of_int_def split: if_splits)
  show ?case using vs v by simp
qed

lemma corners_seq_other:
  assumes "\<not> (length xs = 4 \<and> list_all is_number xs)"
    "\<not> (length xs = 2 \<and> list_all is_pair xs)"
  shows "corners_seq sf xs =
      (let nums = List.map_filter (to_float_none sf) (concat (map flatten xs))
       in if length nums \<ge> 4
          then Inr (nums ! 0, nums ! 1, nums ! 2, nums ! 3)
          else Inr (Fin 0, Fin 0, Fin 1, Fin 1))"
  using assms by (simp only: corners_seq_def if_False)

lemma corners_seq_total:
  assumes "length xs = 4 \<and> list_all is_number xs
             \<longrightarrow> (\<forall>z \<in> set xs. py_float sf z \<noteq> Inl OverflowError)"
  shows "\<exists>c. corners_seq sf xs = Inr c"
proof (cases "length xs = 4 \<and> list_all is_number xs")
  case True
  with assms have "\<forall>z \<in> set xs. is_number z \<and> py_float sf z \<noteq> Inl OverflowError"
    by (simp add: list_all_iff)
  from floats_numbers [OF this] obtain vs where "floats sf xs = Inr vs" by blast
  with True show ?thesis by (simp add: corners_seq_def)
next
  case four: False
  show ?thesis
  proof (cases "length xs = 2 \<and> list_all is_pair xs")
    case True
    with four show ?thesis by (simp add: corners_seq_def)
  next
    case False
    show ?thesis
      unfolding corners_seq_other [OF four False] by (simp add: Let_def)
  qed
qed

lemma corners_total:
  assumes "in_float_range sf v"
  shows "\<exists>c. corners sf v = Inr c"
proof (cases v)
  case (PList xs)
  with assms have "length xs = 4 \<and> list_all is_number xs
             \<longrightarrow> (\<forall>z \<in> set xs. py_float sf z \<noteq> Inl OverflowError)"
    by (simp add: in_float_range_def)
  from corners_seq_total [OF this] obtain c where "corners_seq sf xs = Inr c" by blast
  with PList have "corners sf v = Inr c" by simp
  then show ?thesis by (rule exI)
next
  case (PTuple xs)
  with assms have "length xs = 4 \<and> list_all is_number xs
             \<longrightarrow> (\<forall>z \<in> set xs. py_float sf z \<noteq> Inl OverflowError)"
    by (simp add: in_float_range_def)
  from corners_seq_total [OF this] obtain c where "corners_seq sf xs = Inr c" by blast
  with PTuple have "corners sf v = Inr c" by simp
  then show ?thesis by (rule exI)
qed simp_all

lemma coerce_geom_box:
  assumes "in_float_range sf v"
  shows "\<exists>xmin ymin xmax ymax.
           coerce_geom sf v = Inr (Fin xmin, Fin ymin, Fin xmax, Fin ymax)
           \<and> 0 \<le> xmin \<and> xmin \<le> 1 \<and> 0 \<le> ymin \<and> ymin \<le> 1
           \<and> 0 \<le> xmax \<and> xmax \<le> 1 \<and> 0 \<le> ymax \<and> ymax \<le> 1
           \<and> (nan_safe sf v \<longrightarrow> xmin \<le> xmax \<and> ymin \<le> ymax)"
proof -
  from corners_total [OF assms] obtain x0 y0 x1 y1 where
    c: "corners sf v = Inr (x0, y0, x1, y1)" by (metis prod_cases4)
  then have g: "coerce_geom sf v = Inr (order_clamp x0 y0 x1 y1)"
    by (simp add: coerce_geom_def)
  from c have n: "nan_safe sf v = (order_safe x0 x1 \<and> order_safe y0 y1)"
    by (simp add: nan_safe_def)
  from order_clamp_box [of x0 y0 x1 y1] show ?thesis unfolding g n by blast
qed

lemma coerce_geom_other:
  assumes "seq_items v = None" "\<not> is_dict v"
  shows "coerce_geom sf v = Inr unit_box"
  using assms by (cases v) (simp_all add: coerce_geom_def order_clamp_unit)

lemma coerce_geom_few:
  assumes "seq_items v = Some xs"
    "\<not> (length xs = 4 \<and> list_all is_number xs)"
    "\<not> (length xs = 2 \<and> list_all is_pair xs)"
    "numeric_leaves sf v < 4"
  shows "coerce_geom sf v = Inr unit_box"
proof -
  from assms(1) have v: "v = PList xs \<or> v = PTuple xs" by (cases v) simp_all
  then have f: "flatten v = concat (map flatten xs)" by auto
  from v have "corners sf v = corners_seq sf xs" by auto
  also from assms(4) have "\<dots> = Inr (Fin 0, Fin 0, Fin 1, Fin 1)"
    unfolding corners_seq_other [OF assms(2,3)]
    by (simp add: numeric_leaves_def f Let_def)
  finally show ?thesis by (simp add: coerce_geom_def order_clamp_unit)
qed

lemma corners_pair:
  assumes "v = PList [p, q] \<or> v = PTuple [p, q]"
    and "seq_items p = Some [a, b]" "seq_items q = Some [c, d]"
  shows "corners sf v =
           Inr (to_float_default sf a (Fin 0), to_float_default sf b (Fin 0),
                to_float_default sf c (Fin 1), to_float_default sf d (Fin 1))"
proof -
  from assms(2,3) have np: "\<not> is_number p" "\<not> is_number q" by (cases p; simp; cases q; simp)+
  from assms(2,3) have pr: "is_pair p" "is_pair q" by (simp_all add: is_pair_def)
  from assms(2,3) have it: "item p 0 = a" "item p 1 = b" "item q 0 = c" "item q 1 = d"
    by (simp_all add: item_def)
  have "corners_seq sf [p, q] =
           Inr (to_float_default sf a (Fin 0), to_float_default sf b (Fin 0),
                to_float_default sf c (Fin 1), to_float_default sf d (Fin 1))"
    using pr it by (simp add: corners_seq_def)
  with assms(1) show ?thesis by auto
qed

text \<open>
  Claim C9 says that an input with fewer than four numeric leaves coerces to the unit box.
  The pair of points \<open>[[0.5, None], [1, 1]]\<close> has three numeric leaves and coerces to
  \<open>(0.5, 0.0, 1.0, 1.0)\<close>: the branch for two points gives each coordinate its own
  default, as does the branch for dictionaries, here on \<open>{"x0": 0.5}\<close>.
\<close>

theorem coerce_geom_unit_box_counterexample:
  "numeric_leaves no_strings
      (PList [PList [PFloat (Fin (1/2)), PNone], PList [PInt 1, PInt 1]]) < 4
   \<and> coerce_geom no_strings
        (PList [PList [PFloat (Fin (1/2)), PNone], PList [PInt 1, PInt 1]])
      = Inr (Fin (1/2), Fin 0, Fin 1, Fin 1)
   \<and> coerce_geom no_strings
        (PList [PList [PFloat (Fin (1/2)), PNone], PList [PInt 1, PInt 1]])
      \<noteq> Inr unit_box
   \<and> coerce_geom no_strings (PDict [(''x0'', PFloat (Fin (1/2)))])
      = Inr (Fin (1/2), Fin 0, Fin 1, Fin 1)
   \<and> coerce_geom no_strings (PDict [(''x0'', PFloat (Fin (1/2)))]) \<noteq> Inr unit_box"
  by (simp add: numeric_leaves_def List.map_filter_def to_float_none_def float_of_int_def
      coerce_geom_def corners_seq_def is_pair_def item_def to_float_default_def dict_get_def
      order_clamp_def clamp_Fin unit_box_def)

text \<open>
  Two inputs on which the coercer leaves its own invariant: a NaN that is read as the
  second coordinate of an axis compares false with everything, so that it is taken for the
  smaller corner and then clamped to \<open>1.0\<close>; and the branch for four numbers converts with
  a bare \<open>float\<close>, which raises on an integer beyond the range of a float.
\<close>

lemma coerce_geom_nan_example:
  "coerce_geom no_strings (PList [PFloat (Fin (1/2)), PInt 0, PFloat NaN, PInt 1])
     = Inr (Fin 1, Fin 0, Fin (1/2), Fin 1)"
  by (simp add: coerce_geom_def corners_seq_def float_of_int_def order_clamp_def clamp_Fin
      clamp_NaN)

lemma coerce_geom_overflow_example:
  "coerce_geom no_strings (PList [PInt (2 ^ 1024), PInt 0, PInt 1, PInt 1])
     = Inl OverflowError"
  by (simp add: coerce_geom_def corners_seq_def float_of_int_def)

text \<open>
  Claim C9, amended. On every input other than a list or tuple of four numbers that holds
  an integer beyond the range of a float, \<open>_coerce_geom\<close> returns without raising a
  rectangle of four finite floats between \<open>0\<close> and \<open>1\<close>, and \<open>xmin \<le> xmax\<close> and
  \<open>ymin \<le> ymax\<close> hold on every input on which no NaN is read as the second coordinate
  of an axis (\<open>x1\<close> or \<open>y1\<close>) next to a first coordinate (\<open>x0\<close> or \<open>y0\<close>) below \<open>1.0\<close>. It
  returns the unit box on every input that is neither a dictionary nor a list or tuple, and
  on every list or tuple that is neither four numbers nor two pairs and has fewer than four
  numeric leaves. A dictionary and a pair of two-element sequences are read coordinate by
  coordinate: each of \<open>x0, y0, x1, y1\<close> that is missing or that \<open>float\<close> refuses gets its own
  default, \<open>0.0\<close> for \<open>x0\<close> and \<open>y0\<close> and \<open>1.0\<close> for \<open>x1\<close> and \<open>y1\<close>, and the four
  coordinates are then ordered and clamped.
\<close>

theorem coerce_geom_total_without_nan:
  "(in_float_range sf v \<longrightarrow>
      (\<exists>xmin ymin xmax ymax.
          coerce_geom sf v = Inr (Fin xmin, Fin ymin, Fin xmax, Fin ymax)
          \<and> 0 \<le> xmin \<and> xmin \<le> 1 \<and> 0 \<le> ymin \<and> ymin \<le> 1
          \<and> 0 \<le> xmax \<and> xmax \<le> 1 \<and> 0 \<le> ymax \<and> ymax \<le> 1
          \<and> (nan_safe sf v \<longrightarrow> xmin \<le> xmax \<and> ymin \<le> ymax)))
   \<and> (seq_items v = None \<and> \<not> is_dict v \<longrightarrow> coerce_geom sf v = Inr unit_box)
   \<and> (\<forall>xs. seq_items v = Some xs
            \<and> \<not> (length xs = 4 \<and> list_all is_number xs)
            \<and> \<not> (length xs = 2 \<and> list_all is_pair xs)
            \<and> numeric_leaves sf v < 4
          \<longrightarrow> coerce_geom sf v = Inr unit_box)
   \<and> (\<forall>kvs. v = PDict kvs \<longrightarrow>
          coerce_geom sf v =
            Inr (order_clamp (to_float_default sf (dict_get kvs ''x0'') (Fin 0))
                             (to_float_default sf (dict_get kvs ''y0'') (Fin 0))
                             (to_float_default sf (dict_get kvs ''x1'') (Fin 1))
                             (to_float_default sf (dict_get kvs ''y1'') (Fin 1))))
   \<and> (\<forall>p q a b c d. (v = PList [p, q] \<or> v = PTuple [p, q])
            \<and> seq_items p = Some [a, b] \<and> seq_items q = Some [c, d]
          \<longrightarrow> coerce_geom sf v =
                Inr (order_clamp (to_float_default sf a (Fin 0)) (to_float_default sf b (Fin 0))
                                 (to_float_default sf c (Fin 1)) (to_float_default sf d (Fin 1))))
   \<and> (\<forall>x d. to_float_default sf x d
               = (case py_float sf x of Inl e \<Rightarrow> d | Inr f \<Rightarrow> f))"
proof (intro conjI impI allI)
  assume "in_float_range sf v"
  then show "\<exists>xmin ymin xmax ymax.
          coerce_geom sf v = Inr (Fin xmin, Fin ymin, Fin xmax, Fin ymax)
          \<and> 0 \<le> xmin \<and> xmin \<le> 1 \<and> 0 \<le> ymin \<and> ymin \<le> 1
          \<and> 0 \<le> xmax \<and> xmax \<le> 1 \<and> 0 \<le> ymax \<and> ymax \<le> 1
          \<and> (nan_safe sf v \<longrightarrow> xmin \<le> xmax \<and> ymin \<le> ymax)"
    by (rule coerce_geom_box)
next
  assume "seq_items v = None \<and> \<not> is_dict v"
  then show "coerce_geom sf v = Inr unit_box" by (simp add: coerce_geom_other)
next
  fix xs
  assume "seq_items v = Some xs
            \<and> \<not> (length xs = 4 \<and> list_all is_number xs)
            \<and> \<not> (length xs = 2 \<and> list_all is_pair xs)
            \<and> numeric_leaves sf v < 4"
  then show "coerce_geom sf v = Inr unit_box" by (blast intro: coerce_geom_few)
next
  fix kvs
  assume "v = PDict kvs"
  then show "coerce_geom sf v =
            Inr (order_clamp (to_float_default sf (dict_get kvs ''x0'') (Fin 0))
                             (to_float_default sf (dict_get kvs ''y0'') (Fin 0))
                             (to_float_default sf (dict_get kvs ''x1'') (Fin 1))
                             (to_float_default sf (dict_get kvs ''y1'') (Fin 1)))"
    by (simp add: coerce_geom_dict)
next
  fix p q a b c d
  assume "(v = PList [p, q] \<or> v = PTuple [p, q])
            \<and> seq_items p = Some [a, b] \<and> seq_items q = Some [c, d]"
  then have "corners sf v =
           Inr (to_float_default sf a (Fin 0), to_float_default sf b (Fin 0),
                to_float_default sf c (Fin 1), to_float_default sf d (Fin 1))"
    using corners_pair [of v p q a b c d sf] by blast
  then show "coerce_geom sf v =
                Inr (order_clamp (to_float_default sf a (Fin 0)) (to_float_default sf b (Fin 0))
                                 (to_float_default sf c (Fin 1)) (to_float_default sf d (Fin 1)))"
    by (simp add: coerce_geom_def)
next
  fix x d
  show "to_float_default sf x d = (case py_float sf x of Inl e \<Rightarrow> d | Inr f \<Rightarrow> f)"
    by (simp add: to_float_default_def)
qed

theorem coerce_geom_total_without_nan_witness:
  "in_float_range no_strings (PList [PFloat NaN, PInt 0, PFloat (Fin (1/2)), PInt 7])
   \<and> nan_safe no_strings (PList [PFloat NaN, PInt 0, PFloat (Fin (1/2)), PInt 7])
   \<and> coerce_geom no_strings (PList [PFloat NaN, PInt 0, PFloat (Fin (1/2)), PInt 7])
     = Inr (Fin (1/2), Fin 0, Fin 1, Fin 1)
   \<and> seq_items (PStr ''box'') = None \<and> \<not> is_dict (PStr ''box'')
   \<and> coerce_geom no_strings (PStr ''box'') = Inr unit_box
   \<and> numeric_leaves no_strings (PTuple [PFloat (Fin (1/2)), PList [PStr ''a'', PInt 2], PNone]) < 4
   \<and> coerce_geom no_strings (PTuple [PFloat (Fin (1/2)), PList [PStr ''a'', PInt 2], PNone])
     = Inr unit_box
   \<and> coerce_geom no_strings (PDict [(''x1'', PFloat (Fin (1/4))), (''y0'', PStr ''top'')])
     = Inr (Fin 0, Fin 0, Fin (1/4), Fin 1)
   \<and> coerce_geom no_strings (PTuple [PList [PFloat (Fin (1/2)), PNone], PTuple [PInt 1, PInt 1]])
     = Inr (Fin (1/2), Fin 0, Fin 1, Fin 1)"
  using coerce_geom_total_without_nan [of no_strings
      "PList [PFloat NaN, PInt 0, PFloat (Fin (1/2)), PInt 7]"]
    coerce_geom_total_without_nan [of no_strings "PStr ''box''"]
    coerce_geom_total_without_nan [of no_strings
      "PTuple [PFloat (Fin (1/2)), PList [PStr ''a'', PInt 2], PNone]"]
    coerce_geom_total_without_nan [of no_strings
      "PDict [(''x1'', PFloat (Fin (1/4))), (''y0'', PStr ''top'')]"]
    coerce_geom_total_without_nan [of no_strings
      "PTuple [PList [PFloat (Fin (1/2)), PNone], PTuple [PInt 1, PInt 1]]"]
  by (simp add: nan_safe_def order_safe_def in_float_range_def numeric_leaves_def
      List.map_filter_def to_float_none_def to_float_default_def float_of_int_def
      no_strings_def coerce_geom_def corners_seq_def is_pair_def item_def dict_get_def
      order_clamp_def clamp_Fin clamp_NaN unit_box_def flt_def)

subsection \<open>Field cleaner\<close>

lemma is_space_blank [simp]: "is_space CHR '' ''"
  by (simp add: is_space_def)

lemma up_ascii_blank [simp]: "up_ascii CHR '' ''"
  by (simp add: up_ascii_def ascii_upper_char_def)

lemma single_blanks_append_right: "single_blanks (a @ b) \<Longrightarrow> single_blanks b"
  by (induction a) auto

lemma single_blanks_append_left: "single_blanks (a @ b) \<Longrightarrow> single_blanks a"
proof (induction a)
  case Nil
  show ?case by simp
next
  case (Cons c cs)
  then show ?case by (cases cs) auto
qed

lemma single_blanks_drop: "single_blanks t \<Longrightarrow> single_blanks (drop n t)"
  using single_blanks_append_right [of "take n t" "drop n t"] by simp

lemma single_blanks_take: "single_blanks t \<Longrightarrow> single_blanks (take n t)"
  using single_blanks_append_left [of "take n t" "drop n t"] by simp

lemma single_blanks_dropWhile: "single_blanks t \<Longrightarrow> single_blanks (dropWhile P t)"
  using single_blanks_append_right [of "takeWhile P t" "dropWhile P t"] by simp

lemma collapse_ws_fixed:
  "single_blanks t \<Longrightarrow> (b \<longrightarrow> t = [] \<or> \<not> is_space (hd t)) \<Longrightarrow> collapse_ws b t = t"
proof (induction t arbitrary: b)
  case Nil
  show ?case by simp
next
  case (Cons c cs)
  show ?case
  proof (cases "is_space c")
    case True
    with Cons.prems have "\<not> b" "c = CHR '' ''" "cs = [] \<or> \<not> is_space (hd cs)" "single_blanks cs"
      by auto
    with Cons.IH [of True] True show ?thesis by simp
  next
    case False
    with Cons.prems have "single_blanks cs" by simp
    with Cons.IH [of False] False show ?thesis by simp
  qed
qed

lemma collapse_ws_single_blanks:
  "single_blanks (collapse_ws b x)
   \<and> (b \<longrightarrow> collapse_ws b x = [] \<or> \<not> is_space (hd (collapse_ws b x)))"
proof (induction x arbitrary: b)
  case Nil
  show ?case by simp
next
  case (Cons c cs)
  show ?case using Cons.IH [of True] Cons.IH [of False] by auto
qed

lemma set_collapse_ws: "set (collapse_ws b x) \<subseteq> insert CHR '' '' (set x)"
  by (induction x arbitrary: b) auto

lemma strip_decomp: "\<exists>a b. x = a @ strip x @ b"
proof -
  have "x = takeWhile is_space x @ dropWhile is_space x" by simp
  moreover have "dropWhile is_space x
      = strip x @ rev (takeWhile is_space (rev (dropWhile is_space x)))"
    unfolding strip_def
    by (metis rev_append rev_rev_ident takeWhile_dropWhile_id)
  ultimately show ?thesis by metis
qed

lemma trimmed_strip: "trimmed (strip x)"
proof -
  have 1: "y \<noteq> [] \<Longrightarrow> \<not> is_space (hd (dropWhile is_space y)) \<or> dropWhile is_space y = []" for y
    using hd_dropWhile [of is_space y] by blast
  show ?thesis
  proof (cases "strip x = []")
    case True
    then show ?thesis by (simp add: trimmed_def)
  next
    case False
    define y where "y = dropWhile is_space x"
    define z where "z = dropWhile is_space (rev y)"
    have s: "strip x = rev z" by (simp add: strip_def y_def z_def)
    with False have zne: "z \<noteq> []" by simp
    then have "\<not> is_space (hd z)" unfolding z_def using hd_dropWhile by blast
    then have l: "\<not> is_space (last (strip x))" using zne by (simp add: s last_rev)
    from zne have yne: "y \<noteq> []" by (auto simp: z_def)
    then have hy: "\<not> is_space (hd y)" unfolding y_def using hd_dropWhile by blast
    have "\<exists>w. rev y = w @ z" unfolding z_def
      by (metis takeWhile_dropWhile_id)
    then obtain w where "rev y = w @ z" by blast
    then have "y = rev z @ rev w" by (metis rev_append rev_rev_ident)
    with zne have "hd y = hd (rev z)" by simp
    with hy have "\<not> is_space (hd (strip x))" by (simp add: s)
    with l show ?thesis by (simp add: trimmed_def)
  qed
qed

lemma strip_fixed: "trimmed t \<Longrightarrow> strip t = t"
proof (cases "t = []")
  case True
  then show ?thesis by (simp add: strip_def)
next
  case False
  assume "trimmed t"
  with False have h: "\<not> is_space (hd t)" "\<not> is_space (last t)" by (simp_all add: trimmed_def)
  from h(1) False have 1: "dropWhile is_space t = t" by (cases t) auto
  from h(2) False have 2: "dropWhile is_space (rev t) = rev t"
    by (cases "rev t") (auto simp: last_rev [symmetric] hd_rev)
  show ?thesis by (simp add: strip_def 1 2)
qed

lemma single_blanks_strip: "single_blanks x \<Longrightarrow> single_blanks (strip x)"
proof -
  assume a: "single_blanks x"
  obtain p q where "x = p @ strip x @ q" using strip_decomp by blast
  with a have "single_blanks (p @ strip x @ q)" by simp
  then show ?thesis using single_blanks_append_right single_blanks_append_left by blast
qed

lemma set_strip: "set (strip x) \<subseteq> set x"
proof -
  obtain p q where "x = p @ strip x @ q" using strip_decomp by blast
  then have "set x = set p \<union> set (strip x) \<union> set q" by (metis set_append Un_assoc)
  then show ?thesis by blast
qed

lemma normalised_tidy:
  assumes "list_all up_ascii x"
  shows "normalised (strip (collapse_ws False x))"
proof -
  have "set (strip (collapse_ws False x)) \<subseteq> insert CHR '' '' (set x)"
    using set_strip set_collapse_ws by blast
  with assms have "list_all up_ascii (strip (collapse_ws False x))"
    by (auto simp: list_all_iff)
  moreover have "single_blanks (strip (collapse_ws False x))"
    using collapse_ws_single_blanks [of False x] by (simp add: single_blanks_strip)
  ultimately show ?thesis by (simp add: normalised_def trimmed_strip)
qed

lemma up_ascii_upper_char:
  "(of_char c :: nat) < 128 \<Longrightarrow> up_ascii (ascii_upper_char c)"
proof -
  assume a: "(of_char c :: nat) < 128"
  define n where "n = (of_char c :: nat)"
  show ?thesis
  proof (cases "97 \<le> n \<and> n \<le> 122")
    case True
    then have u: "ascii_upper_char c = char_of (n - 32)"
      by (simp add: ascii_upper_char_def Let_def n_def)
    have "(n - 32) mod 256 = n - 32"
      using True by (intro mod_less) arith
    then have o: "(of_char (char_of (n - 32)) :: nat) = n - 32"
      by (simp add: of_char_of)
    from True have "\<not> (97 \<le> n - 32 \<and> n - 32 \<le> 122)" "n - 32 < 128" by arith+
    then have "up_ascii (char_of (n - 32))"
      unfolding up_ascii_def ascii_upper_char_def Let_def o by auto
    then show ?thesis by (simp only: u)
  next
    case False
    with a show ?thesis by (auto simp: up_ascii_def ascii_upper_char_def Let_def n_def)
  qed
qed

lemma normalised_norm_text:
  assumes "unidecode_like ud"
  shows "normalised (norm_text ud s)"
proof -
  from assms have "ascii_text (ud s)" by (simp add: unidecode_like_def)
  then have "list_all up_ascii (ascii_upper (ud s))"
    by (simp add: ascii_text_def ascii_upper_def list_all_iff up_ascii_upper_char)
  then show ?thesis unfolding norm_text_def by (rule normalised_tidy)
qed

lemma norm_text_fixed:
  assumes "unidecode_like ud" "normalised t"
  shows "norm_text ud t = t"
proof -
  from assms(2) have a: "list_all up_ascii t" "single_blanks t" "trimmed t"
    by (simp_all add: normalised_def)
  from a(1) have "ascii_text t" by (simp add: ascii_text_def up_ascii_def list_all_iff)
  with assms(1) have 1: "ud t = t" by (simp add: unidecode_like_def)
  from a(1) have 2: "ascii_upper t = t" by (simp add: ascii_upper_def up_ascii_def list_all_iff map_idI)
  from a(2) have 3: "collapse_ws False t = t" by (simp add: collapse_ws_fixed)
  show ?thesis by (simp add: norm_text_def 1 2 3 strip_fixed a(3))
qed

lemma norm_text_idem:
  "unidecode_like ud \<Longrightarrow> norm_text ud (norm_text ud s) = norm_text ud s"
  by (simp add: norm_text_fixed normalised_norm_text)

lemma is_word_digit: "is_digit c \<Longrightarrow> is_word c"
  by (simp add: is_word_def)

lemma is_word_AZ09: "is_AZ09 c \<Longrightarrow> is_word c"
  by (auto simp: is_word_def is_AZ09_def)

lemma is_word_not_space: "is_word c \<Longrightarrow> \<not> is_space c"
  by (auto simp: is_word_def is_space_def is_AZ_def is_digit_def)

lemma search_from_Some:
  "search_from p prev s = Some m
   \<Longrightarrow> \<exists>pre s' prev' n. s = pre @ s' \<and> match_at p prev' s' = Some n \<and> m = take n s'"
proof (induction s arbitrary: prev)
  case Nil
  then obtain n where "match_at p prev [] = Some n" "m = []"
    by (auto split: option.splits)
  then show ?case by auto
next
  case (Cons c cs)
  show ?case
  proof (cases "match_at p prev (c # cs)")
    case (Some n)
    with Cons.prems have "m = take n (c # cs)" by simp
    with Some show ?thesis by (metis append_Nil)
  next
    case None
    with Cons.prems have "search_from p (Some c) cs = Some m" by simp
    from Cons.IH [OF this] obtain pre s' prev' n where
      "cs = pre @ s'" "match_at p prev' s' = Some n" "m = take n s'" by blast
    then have "c # cs = (c # pre) @ s'" by simp
    with \<open>match_at p prev' s' = Some n\<close> \<open>m = take n s'\<close> show ?thesis by blast
  qed
qed

lemma last_take:
  assumes "0 < n" "n \<le> length s"
  shows "last (take n s) = s ! (n - 1)"
proof -
  from assms have "take n s \<noteq> []" by auto
  then have "last (take n s) = take n s ! (length (take n s) - 1)" by (rule last_conv_nth)
  also from assms have "\<dots> = s ! (n - 1)" by (simp add: min_def)
  finally show ?thesis .
qed

lemma bounded_at_take:
  assumes "bounded_at P n prev s" "0 < n"
    and "is_word (hd (take n s))" "is_word (last (take n s))"
  shows "bounded_at P n None (take n s)"
proof -
  define m where "m = take n s"
  from assms(1) have n: "n \<le> length s" and P: "P m" by (simp_all add: bounded_at_def m_def)
  from n have len: "length m = n" by (simp add: m_def)
  with assms(2) obtain c cs where m: "m = c # cs" by (cases m) auto
  from len have t: "take n m = m" "drop n m = []" by simp_all
  from len assms(2) have l: "m ! (n - 1) = last m"
    using last_take [of n m] by simp
  from assms(3,4) have w: "is_word (hd m)" "is_word (last m)" by (simp_all add: m_def)
  have "boundary None m" using w(1) m by (simp add: boundary_def)
  moreover have "boundary (Some (m ! (n - 1))) (drop n m)"
    using w(2) l t(2) by (simp add: boundary_def)
  ultimately have "bounded_at P n None m"
    using len P t(1) by (simp add: bounded_at_def)
  then show ?thesis by (simp add: m_def)
qed

lemma bounded_at_ends:
  assumes "bounded_at P n prev s" "0 < n"
    and "is_word (hd (take n s))" "is_word (last (take n s))"
  shows "n \<le> length s" "\<not> is_space (hd s)" "\<not> is_space (s ! (n - 1))"
proof -
  from assms(1) show n: "n \<le> length s" by (simp add: bounded_at_def)
  from n assms(2) have ne: "take n s \<noteq> []" by auto
  from assms(2) have "hd (take n s) = hd s" by (cases s) (auto simp: take_Suc_conv_app_nth)
  with assms(3) show "\<not> is_space (hd s)" by (simp add: is_word_not_space)
  from n assms(2) have "last (take n s) = s ! (n - 1)"
    by (simp add: last_take)
  with assms(4) show "\<not> is_space (s ! (n - 1))" by (simp add: is_word_not_space)
qed

lemma year4_ends:
  assumes "is_year4 m"
  shows "is_word (hd m)" "is_word (last m)"
proof -
  from assms have l: "length m = 4" and h: "take 2 m = ''19'' \<or> take 2 m = ''20''"
    and d: "list_all is_digit (drop 2 m)"
    by (simp_all add: is_year4_def)
  from l obtain a b c e where m: "m = [a, b, c, e]"
    by (cases m; simp; cases "tl m"; simp; cases "tl (tl m)"; simp; cases "tl (tl (tl m))"; simp)
  from h m show "is_word (hd m)" by (auto simp: is_word_def is_digit_def)
  from d m show "is_word (last m)" by (simp add: is_word_digit)
qed

lemma date10_ends:
  assumes "is_date10 m"
  shows "is_word (hd m)" "is_word (last m)"
proof -
  from assms have l: "length m = 10" and d: "list_all is_digit (take 2 m)"
    and y: "is_year4 (drop 6 m)"
    by (simp_all add: is_date10_def)
  from l have ne: "m \<noteq> []" by auto
  with d show "is_word (hd m)" by (cases m) (simp_all add: is_word_digit)
  from l have "last (drop 6 m) = last m" by simp
  with year4_ends(2) [OF y] show "is_word (last m)" by simp
qed

lemma list_all_ends:
  assumes "list_all P m" "m \<noteq> []"
  shows "P (hd m)" "P (last m)"
  using assms by (simp_all add: list_all_iff)

lemma find_first_fit:
  assumes "sorted_wrt (>) ns" "n \<in> set ns" "Q n" "\<And>k. k > n \<Longrightarrow> \<not> Q k"
  shows "find Q ns = Some (n :: nat)"
  using assms(1,2)
proof (induction ns)
  case Nil
  then show ?case by simp
next
  case (Cons a ns)
  show ?case
  proof (cases "a = n")
    case True
    with assms(3) show ?thesis by simp
  next
    case False
    with Cons.prems have "n \<in> set ns" "a > n" by auto
    with Cons assms(4) [of a] show ?thesis by simp
  qed
qed

lemma first_length_take:
  assumes "first_length (\<lambda>k. bounded_at P k prev s) ns = Some n" "sorted_wrt (>) ns"
    and "0 \<notin> set ns"
    and "\<And>m. P m \<Longrightarrow> m \<noteq> [] \<Longrightarrow> is_word (hd m) \<and> is_word (last m)"
  shows "first_length (\<lambda>k. bounded_at P k None (take n s)) ns = Some n"
    "0 < n" "n \<le> length s" "\<not> is_space (hd s)" "\<not> is_space (s ! (n - 1))" "P (take n s)"
proof -
  from assms(1) have b: "bounded_at P n prev s" and mem: "n \<in> set ns"
    by (auto simp: first_length_def find_Some_iff)
  with assms(3) show pos: "0 < n" by (cases n) auto
  from b show n: "n \<le> length s" and P: "P (take n s)" by (simp_all add: bounded_at_def)
  from n pos have ne: "take n s \<noteq> []" by auto
  from assms(4) [OF P ne] have w: "is_word (hd (take n s))" "is_word (last (take n s))"
    by simp_all
  from bounded_at_ends [OF b pos w]
  show "\<not> is_space (hd s)" "\<not> is_space (s ! (n - 1))" by simp_all
  have "bounded_at P n None (take n s)" by (rule bounded_at_take [OF b pos w])
  moreover have "\<not> bounded_at P k None (take n s)" if "k > n" for k
    using that n by (simp add: bounded_at_def)
  ultimately show "first_length (\<lambda>k. bounded_at P k None (take n s)) ns = Some n"
    unfolding first_length_def using assms(2) mem by (intro find_first_fit) auto
qed

lemma is_word_AZ: "is_AZ c \<Longrightarrow> is_word c"
  by (simp add: is_word_def)

lemma curp_stable:
  assumes "match_at CURP_REGEX prev s = Some n"
  shows "0 < n \<and> n \<le> length s \<and> \<not> is_space (hd s) \<and> \<not> is_space (s ! (n - 1))
         \<and> match_at CURP_REGEX None (take n s) = Some n"
proof -
  from assms have n: "n = 18" and l: "18 \<le> length s" and c: "is_curp18 (take 18 s)"
    by (simp_all split: if_splits)
  from l obtain a r where s: "s = a # r" by (cases s) auto
  from c s have "is_AZ a" by (simp add: is_curp18_def)
  then have h: "\<not> is_space (hd s)" using s by (simp add: is_word_AZ is_word_not_space)
  from c l have "is_digit (s ! 17)" by (simp add: is_curp18_def)
  then have e: "\<not> is_space (s ! 17)" by (simp add: is_word_digit is_word_not_space)
  from l c have "match_at CURP_REGEX None (take 18 s) = Some 18" by simp
  with n l h e show ?thesis by simp
qed

lemma bounded_stable:
  assumes "bounded_at P n prev s" "0 < n"
    and "\<And>m. P m \<Longrightarrow> is_word (hd m) \<and> is_word (last m)"
  shows "0 < n \<and> n \<le> length s \<and> \<not> is_space (hd s) \<and> \<not> is_space (s ! (n - 1))
         \<and> bounded_at P n None (take n s)"
proof -
  from assms(1) have P: "P (take n s)" by (simp add: bounded_at_def)
  from assms(3) [OF P] have w: "is_word (hd (take n s))" "is_word (last (take n s))"
    by simp_all
  from bounded_at_ends [OF assms(1,2) w] bounded_at_take [OF assms(1,2) w] assms(2)
  show ?thesis by simp
qed

lemma year_stable:
  assumes "match_at YEAR_REGEX prev s = Some n"
  shows "0 < n \<and> n \<le> length s \<and> \<not> is_space (hd s) \<and> \<not> is_space (s ! (n - 1))
         \<and> match_at YEAR_REGEX None (take n s) = Some n"
proof -
  from assms have n: "n = 4" and b: "bounded_at is_year4 4 prev s"
    by (simp_all split: if_splits)
  from bounded_stable [OF b] year4_ends n show ?thesis by simp
qed

lemma date_stable:
  assumes "match_at DATE_REGEX prev s = Some n"
  shows "0 < n \<and> n \<le> length s \<and> \<not> is_space (hd s) \<and> \<not> is_space (s ! (n - 1))
         \<and> match_at DATE_REGEX None (take n s) = Some n"
proof -
  from assms have n: "n = 10" and b: "bounded_at is_date10 10 prev s"
    by (simp_all split: if_splits)
  from bounded_stable [OF b] date10_ends n show ?thesis by simp
qed

lemma seccion_stable:
  assumes "match_at SECCION_REGEX prev s = Some n"
  shows "0 < n \<and> n \<le> length s \<and> \<not> is_space (hd s) \<and> \<not> is_space (s ! (n - 1))
         \<and> match_at SECCION_REGEX None (take n s) = Some n"
proof -
  from assms have
    f: "first_length (\<lambda>k. bounded_at (list_all is_digit) k prev s) [5, 4, 3, 2, 1] = Some n"
    by simp
  have w: "is_word (hd m) \<and> is_word (last m)" if "list_all is_digit m" "m \<noteq> []" for m
    using list_all_ends [OF that] by (simp add: is_word_digit)
  from first_length_take [OF f _ _ w] show ?thesis by simp
qed

lemma clave_stable:
  assumes "match_at CLAVE_ELECTOR_REGEX prev s = Some n"
  shows "0 < n \<and> n \<le> length s \<and> \<not> is_space (hd s) \<and> \<not> is_space (s ! (n - 1))
         \<and> match_at CLAVE_ELECTOR_REGEX None (take n s) = Some n
         \<and> list_all is_AZ09 (take n s)"
proof -
  from assms have
    f: "first_length (\<lambda>k. bounded_at (list_all is_AZ09) k prev s)
          [20, 19, 18, 17, 16, 15, 14, 13, 12, 11, 10, 9, 8] = Some n"
    by simp
  have w: "is_word (hd m) \<and> is_word (last m)" if "list_all is_AZ09 m" "m \<noteq> []" for m
    using list_all_ends [OF that] by (simp add: is_word_AZ09)
  from first_length_take [OF f _ _ w] show ?thesis by simp
qed

lemma sexo_match:
  assumes "match_at SEXO_REGEX prev s = Some n"
  shows "n \<le> length s \<and> 0 < n
         \<and> (take n s = ''H'' \<or> take n s = ''M'' \<or> take n s = ''HOMBRE'' \<or> take n s = ''MUJER'')"
  using assms by (auto simp: bounded_at_def split: if_splits)

lemma sexo_evaluated:
  "match_at SEXO_REGEX None ''H'' = Some 1" "match_at SEXO_REGEX None ''M'' = Some 1"
  "match_at SEXO_REGEX None ''HOMBRE'' = Some 6" "match_at SEXO_REGEX None ''MUJER'' = Some 5"
  by (simp_all add: bounded_at_def boundary_def is_word_def is_AZ_def is_digit_def)

lemma sexo_stable:
  assumes "match_at SEXO_REGEX prev s = Some n"
  shows "0 < n \<and> n \<le> length s \<and> \<not> is_space (hd s) \<and> \<not> is_space (s ! (n - 1))
         \<and> match_at SEXO_REGEX None (take n s) = Some n"
proof -
  from sexo_match [OF assms] have n: "n \<le> length s" "0 < n"
    and m: "take n s = ''H'' \<or> take n s = ''M'' \<or> take n s = ''HOMBRE'' \<or> take n s = ''MUJER''"
    by simp_all
  from n have len: "length (take n s) = n" by simp
  from n have h: "hd s = hd (take n s)" by (cases s) auto
  from n have e: "s ! (n - 1) = last (take n s)" by (simp add: last_take)
  from m show ?thesis
  proof (elim disjE)
    assume a: "take n s = ''H''"
    with len have "n = 1" by simp
    with a h e n sexo_evaluated show ?thesis by (simp add: is_space_def)
  next
    assume a: "take n s = ''M''"
    with len have "n = 1" by simp
    with a h e n sexo_evaluated show ?thesis by (simp add: is_space_def)
  next
    assume a: "take n s = ''HOMBRE''"
    with len have "n = 6" by simp
    with a h e n sexo_evaluated show ?thesis by (simp add: is_space_def)
  next
    assume a: "take n s = ''MUJER''"
    with len have "n = 5" by simp
    with a h e n sexo_evaluated show ?thesis by (simp add: is_space_def)
  qed
qed

lemma year4_shape:
  assumes "is_year4 (take 4 s)" "4 \<le> length s"
  shows "is_word (hd s)" "is_word (s ! 3)" "\<not> is_space (hd s)" "\<not> is_space (s ! 3)"
proof -
  from assms(2) have ne: "take 4 s \<noteq> []" by auto
  from assms(2) have h: "hd (take 4 s) = hd s" by (cases s) auto
  from assms(2) have l: "last (take 4 s) = s ! 3" using last_take [of 4 s] by simp
  from year4_ends [OF assms(1)] h l show "is_word (hd s)" "is_word (s ! 3)" by simp_all
  then show "\<not> is_space (hd s)" "\<not> is_space (s ! 3)" by (simp_all add: is_word_not_space)
qed

lemma vig_short:
  assumes "is_year4 y" 
  shows "vig_at None y = Some 4"
proof -
  from assms have l: "length y = 4" by (simp add: is_year4_def)
  then have t: "take 4 y = y" "drop 4 y = []" by simp_all
  from l have ne: "y \<noteq> []" by auto
  from assms t l have w: "is_word (hd y)" "is_word (y ! 3)"
    using year4_shape [of y] by simp_all
  have b: "boundary None y" using w(1) ne by (cases y) (simp_all add: boundary_def)
  have e: "boundary (Some (y ! 3)) []" using w(2) by (simp add: boundary_def)
  show ?thesis using b e l assms t by (simp add: vig_at_def)
qed

lemma vig_long:
  assumes y1: "is_year4 y1" and y2: "is_year4 y2"
    and w1: "\<forall>c \<in> set w1. is_space c" and w2: "\<forall>c \<in> set w2. is_space c"
  shows "vig_at None (y1 @ w1 @ CHR ''-'' # w2 @ y2)
           = Some (4 + length w1 + 1 + length w2 + 4)"
proof -
  define s where "s = y1 @ w1 @ CHR ''-'' # w2 @ y2"
  from y1 y2 have l: "length y1 = 4" "length y2 = 4" by (simp_all add: is_year4_def)
  then have t: "take 4 s = y1" "drop 4 s = w1 @ CHR ''-'' # w2 @ y2" by (simp_all add: s_def)
  have nsp: "\<not> is_space CHR ''-''" by (simp add: is_space_def)
  from l obtain a r where y2c: "y2 = a # r" by (cases y2) auto
  from year4_ends(1) [OF y2] y2c have a: "\<not> is_space a" by (simp add: is_word_not_space)
  have tw1: "takeWhile is_space (w1 @ CHR ''-'' # w2 @ y2) = w1"
    using w1 nsp by (simp add: takeWhile_append2)
  have dw1: "dropWhile is_space (w1 @ CHR ''-'' # w2 @ y2) = CHR ''-'' # w2 @ y2"
    using w1 nsp by (simp add: dropWhile_append2)
  have tw2: "takeWhile is_space (w2 @ y2) = w2"
    using w2 a y2c by (simp add: takeWhile_append2)
  have dw2: "dropWhile is_space (w2 @ y2) = y2"
    using w2 a y2c by (simp add: dropWhile_append2)
  from l have ne: "y1 \<noteq> []" by auto
  from y1 l have wd: "is_word (hd y1)" using year4_ends(1) by simp
  have hs: "hd s = hd y1" using ne by (simp add: s_def)
  have len: "4 \<le> length s" using l by (simp add: s_def)
  from ne have "s \<noteq> []" by (simp add: s_def)
  then obtain c0 cs0 where sc: "s = c0 # cs0" by (cases s) auto
  with hs wd have "is_word c0" by simp
  then have b: "boundary None s" by (simp add: boundary_def sc)
  from y2 l have e: "boundary (Some (y2 ! 3)) []"
    using year4_shape(2) [of y2] by (simp add: boundary_def)
  from l have ty2: "take 4 y2 = y2" by simp
  have "vig_at None s = Some (4 + length w1 + 1 + length w2 + 4)"
    unfolding vig_at_def using b len
    by (simp add: t tw1 dw1 tw2 dw2 Let_def y1 y2 ty2 e l)
  then show ?thesis by (simp add: s_def)
qed

lemma vig_stable:
  assumes "match_at VIG_REGEX prev s = Some n"
  shows "0 < n \<and> n \<le> length s \<and> \<not> is_space (hd s) \<and> \<not> is_space (s ! (n - 1))
         \<and> match_at VIG_REGEX None (take n s) = Some n"
proof -
  from assms have v: "vig_at prev s = Some n" by simp
  then have c: "boundary prev s" "4 \<le> length s" "is_year4 (take 4 s)"
    by (simp_all add: vig_at_def split: if_splits)
  define w1 where "w1 = takeWhile is_space (drop 4 s)"
  define r1 where "r1 = dropWhile is_space (drop 4 s)"
  have d4: "drop 4 s = w1 @ r1" by (simp add: w1_def r1_def)
  have s: "s = take 4 s @ w1 @ r1" using d4 by (metis append_take_drop_id)
  have sp1: "\<forall>c \<in> set w1. is_space c" unfolding w1_def by (auto dest: set_takeWhileD)
  note sh = year4_shape [OF c(3) c(2)]
  have short: ?thesis if "n = 4"
  proof -
    from that c(2) have "match_at VIG_REGEX None (take n s) = Some n"
      using vig_short [OF c(3)] by simp
    with that c(2) sh show ?thesis by simp
  qed
  show ?thesis
  proof (cases r1)
    case Nil
    with v c have "n = 4"
      by (simp add: vig_at_def Let_def r1_def [symmetric] split: if_splits)
    then show ?thesis by (rule short)
  next
    case (Cons d r2)
    define w2 where "w2 = takeWhile is_space r2"
    define r3 where "r3 = dropWhile is_space r2"
    have r2: "r2 = w2 @ r3" by (simp add: w2_def r3_def)
    have sp2: "\<forall>c \<in> set w2. is_space c" unfolding w2_def by (auto dest: set_takeWhileD)
    show ?thesis
    proof (cases "d = CHR ''-'' \<and> 4 \<le> length r3 \<and> is_year4 (take 4 r3)
                  \<and> boundary (Some (r3 ! 3)) (drop 4 r3)")
      case False
      with v c Cons have "n = 4"
        by (simp add: vig_at_def Let_def r1_def [symmetric] r3_def [symmetric]
            split: if_splits)
      then show ?thesis by (rule short)
    next
      case True
      with v c Cons have n: "n = 4 + length w1 + 1 + length w2 + 4"
        by (simp add: vig_at_def Let_def r1_def [symmetric] r3_def [symmetric]
            w1_def [symmetric] w2_def [symmetric])
      from True have d: "d = CHR ''-''" and l3: "4 \<le> length r3" and y3: "is_year4 (take 4 r3)"
        by simp_all
      have s': "s = (take 4 s @ w1 @ CHR ''-'' # w2 @ take 4 r3) @ drop 4 r3"
        using s Cons d r2 by (metis append.assoc append_Cons append_take_drop_id)
      from c(2) l3 have len: "length (take 4 s @ w1 @ CHR ''-'' # w2 @ take 4 r3) = n"
        by (simp add: n)
      have tk: "take n s = take 4 s @ w1 @ CHR ''-'' # w2 @ take 4 r3"
        using s' len by (metis append_eq_conv_conj)
      have m: "match_at VIG_REGEX None (take n s) = Some n"
        unfolding tk using vig_long [OF c(3) y3 sp1 sp2] by (simp add: n)
      from len have nl: "n \<le> length s" using s' by (metis le_add1 length_append)
      have "0 < n" by (simp add: n)
      from nl \<open>0 < n\<close> have "s ! (n - 1) = last (take n s)" by (simp add: last_take)
      also have "\<dots> = last (take 4 r3)"
      proof -
        from l3 have "take 4 r3 \<noteq> []" by auto
        then show ?thesis unfolding tk by simp
      qed
      also have "\<dots> = r3 ! 3" using l3 last_take [of 4 r3] by simp
      finally have "\<not> is_space (s ! (n - 1))"
        using year4_shape(4) [OF y3 l3] by simp
      with m nl \<open>0 < n\<close> sh show ?thesis by simp
    qed
  qed
qed

lemma match_at_stable:
  assumes "match_at p prev s = Some n" "\<forall>w. p \<noteq> WORDS w"
  shows "0 < n \<and> n \<le> length s \<and> \<not> is_space (hd s) \<and> \<not> is_space (s ! (n - 1))
         \<and> match_at p None (take n s) = Some n"
proof (cases p)
  case CURP_REGEX
  with assms(1) curp_stable show ?thesis by blast
next
  case YEAR_REGEX
  with assms(1) year_stable show ?thesis by blast
next
  case DATE_REGEX
  with assms(1) date_stable show ?thesis by blast
next
  case VIG_REGEX
  with assms(1) vig_stable show ?thesis by blast
next
  case SECCION_REGEX
  with assms(1) seccion_stable show ?thesis by blast
next
  case SEXO_REGEX
  with assms(1) sexo_stable show ?thesis by blast
next
  case CLAVE_ELECTOR_REGEX
  with assms(1) clave_stable show ?thesis by blast
next
  case (WORDS w)
  with assms(2) show ?thesis by simp
qed

lemma normalised_Nil [simp]: "normalised []"
  by (simp add: normalised_def trimmed_def)

lemma norm_text_Nil [simp]: "unidecode_like ud \<Longrightarrow> norm_text ud [] = []"
  by (simp add: norm_text_fixed)

lemma normalised_segment:
  assumes "normalised t" "t = pre @ s" "0 < n" "n \<le> length s"
    and "\<not> is_space (hd s)" "\<not> is_space (s ! (n - 1))"
  shows "normalised (take n s)"
proof -
  from assms(1) have a: "list_all up_ascii t" "single_blanks t" by (simp_all add: normalised_def)
  have "set (take n s) \<subseteq> set t" unfolding assms(2) using set_take_subset [of n s] by auto
  with a(1) have 1: "list_all up_ascii (take n s)" by (auto simp: list_all_iff)
  from a(2) have "single_blanks s" unfolding assms(2) by (rule single_blanks_append_right)
  then have 2: "single_blanks (take n s)" by (rule single_blanks_take)
  from assms(3,4) have h: "hd (take n s) = hd s" by (cases s) auto
  from assms(3,4) have l: "last (take n s) = s ! (n - 1)" by (rule last_take)
  from h l assms(5,6) have 3: "trimmed (take n s)" by (simp add: trimmed_def)
  from 1 2 3 show ?thesis by (simp add: normalised_def)
qed

lemma search_match:
  assumes "normalised t" "ascii_search p t = Some m" "\<forall>w. p \<noteq> WORDS w"
  shows "normalised m \<and> m \<noteq> [] \<and> ascii_search p m = Some m"
proof -
  from assms(2) have "search_from p None t = Some m" by (simp only: ascii_search_def)
  from search_from_Some [OF this] obtain pre s prev n where
    t: "t = pre @ s" and ma: "match_at p prev s = Some n" and m: "m = take n s"
    by (elim exE conjE)
  note stable = match_at_stable [OF ma assms(3)]
  have st: "0 < n" "n \<le> length s" "\<not> is_space (hd s)" "\<not> is_space (s ! (n - 1))"
    and st5: "match_at p None (take n s) = Some n"
    using stable by blast+
  have 1: "normalised m" unfolding m by (rule normalised_segment [OF assms(1) t st(1-4)])
  from st(1,2) have len: "length m = n" unfolding m by simp
  with st(1) have "m \<noteq> []" by auto
  then obtain c cs where mc: "m = c # cs" by (cases m) simp_all
  from st5 have "match_at p None m = Some n" by (simp only: m)
  then have "search_from p None m = Some (take n m)"
    unfolding mc by (simp only: search_from.simps option.case)
  moreover from len have "take n m = m" by simp
  ultimately have "ascii_search p m = Some m" by (simp only: ascii_search_def)
  with 1 \<open>m \<noteq> []\<close> show ?thesis by (intro conjI)
qed

lemma no_empty_match:
  assumes "\<forall>w. p \<noteq> WORDS w"
  shows "match_at p prev [] = None"
  using assms
  by (cases p) (simp_all add: bounded_at_def first_length_def vig_at_def)

lemma search_Nil:
  assumes "\<forall>w. p \<noteq> WORDS w"
  shows "ascii_search p [] = None"
  by (simp add: ascii_search_def no_empty_match [OF assms])

lemma pick_first_regex_normalised:
  assumes "unidecode_like ud" "\<forall>w. p \<noteq> WORDS w"
  shows "normalised (pick_first_regex ud s p)"
proof (cases "ascii_search p (norm_text ud s)")
  case None
  then show ?thesis by (simp add: pick_first_regex_def)
next
  case (Some m)
  from search_match [OF normalised_norm_text [OF assms(1)] Some assms(2)] Some
  show ?thesis by (simp add: pick_first_regex_def)
qed

lemma pick_first_regex_fixed:
  assumes "unidecode_like ud" "\<forall>w. p \<noteq> WORDS w"
  shows "pick_first_regex ud (pick_first_regex ud s p) p = pick_first_regex ud s p"
proof (cases "ascii_search p (norm_text ud s)")
  case None
  then have "pick_first_regex ud s p = []" by (simp add: pick_first_regex_def)
  then show ?thesis
    using assms by (simp add: pick_first_regex_def search_Nil)
next
  case (Some m)
  from search_match [OF normalised_norm_text [OF assms(1)] Some assms(2)]
  have m: "normalised m" "ascii_search p m = Some m" by simp_all
  from Some have "pick_first_regex ud s p = m" by (simp add: pick_first_regex_def)
  with m assms(1) show ?thesis by (simp add: pick_first_regex_def norm_text_fixed)
qed

lemma pick_first_regex_norm:
  "unidecode_like ud \<Longrightarrow> pick_first_regex ud (norm_text ud s) p = pick_first_regex ud s p"
  by (simp add: pick_first_regex_def norm_text_idem)

lemma pick_first_regex_of_normalised:
  assumes "unidecode_like ud" "normalised t"
  shows "pick_first_regex ud t p = (case ascii_search p t of None \<Rightarrow> [] | Some m \<Rightarrow> m)"
  using assms by (simp add: pick_first_regex_def norm_text_fixed)

lemma normalised_strip_drop:
  assumes "normalised t"
  shows "normalised (strip (drop n t))"
proof -
  from assms have a: "list_all up_ascii t" "single_blanks t" by (simp_all add: normalised_def)
  have "set (strip (drop n t)) \<subseteq> set t"
    using set_strip [of "drop n t"] set_drop_subset [of n t] by blast
  with a(1) have "list_all up_ascii (strip (drop n t))" by (auto simp: list_all_iff)
  moreover from a(2) have "single_blanks (strip (drop n t))"
    by (simp add: single_blanks_strip single_blanks_drop)
  ultimately show ?thesis by (simp add: normalised_def trimmed_strip)
qed

lemma strip_first_prefix_normalised:
  "normalised t \<Longrightarrow> normalised (strip_first_prefix ud t ps)"
  by (induction ps) (simp_all add: Let_def normalised_strip_drop)

lemma strip_any_prefix_normalised:
  "unidecode_like ud \<Longrightarrow> normalised (strip_any_prefix ud s ps)"
  by (simp add: strip_any_prefix_def strip_first_prefix_normalised normalised_norm_text)

lemma strip_first_prefix_fixed:
  "\<forall>p \<in> set ps. \<not> starts_with t (norm_text ud p) \<Longrightarrow> strip_first_prefix ud t ps = t"
  by (induction ps) (simp_all add: Let_def)

lemma strip_any_prefix_fixed:
  assumes "unidecode_like ud" "normalised t"
    and "\<forall>p \<in> set ps. \<not> starts_with t (norm_text ud p)"
  shows "strip_any_prefix ud t ps = t"
  using assms by (simp add: strip_any_prefix_def norm_text_fixed strip_first_prefix_fixed)

lemma strip_any_prefix_none:
  "strip_any_prefix ud s [] = norm_text ud s"
  by (simp add: strip_any_prefix_def)

lemma set_sub_runs: "set (sub_runs keep b x) \<subseteq> insert CHR '' '' (set x)"
  by (induction x arbitrary: b) auto

lemma sub_runs_kept: "\<forall>c \<in> set (sub_runs keep b x). keep c \<or> c = CHR '' ''"
  by (induction x arbitrary: b) auto

lemma sub_runs_fixed: "list_all keep x \<Longrightarrow> sub_runs keep b x = x"
  by (induction x arbitrary: b) auto

lemma only_letters_spaces_normalised:
  assumes "unidecode_like ud"
  shows "normalised (only_letters_spaces ud s)"
proof -
  have "list_all up_ascii (norm_text ud s)"
    using normalised_norm_text [OF assms] by (simp add: normalised_def)
  then have "list_all up_ascii (sub_runs is_letter_or_blank False (norm_text ud s))"
    using set_sub_runs [of is_letter_or_blank False "norm_text ud s"]
    by (auto simp: list_all_iff)
  then show ?thesis unfolding only_letters_spaces_def by (rule normalised_tidy)
qed

lemma only_letters_spaces_letters:
  "list_all is_letter_or_blank (only_letters_spaces ud s)"
proof -
  define x where "x = sub_runs is_letter_or_blank False (norm_text ud s)"
  have b: "is_letter_or_blank CHR '' ''" by (simp add: is_letter_or_blank_def)
  have "\<forall>c \<in> set x. is_letter_or_blank c"
    unfolding x_def using sub_runs_kept [of is_letter_or_blank False "norm_text ud s"] b
    by auto
  moreover have "set (strip (collapse_ws False x)) \<subseteq> insert CHR '' '' (set x)"
    using set_strip set_collapse_ws by blast
  ultimately have "\<forall>c \<in> set (strip (collapse_ws False x)). is_letter_or_blank c"
    using b by auto
  then show ?thesis by (simp add: only_letters_spaces_def x_def list_all_iff)
qed

lemma only_letters_spaces_of_letters:
  assumes "unidecode_like ud" "normalised y" "list_all is_letter_or_blank y"
  shows "only_letters_spaces ud y = y"
proof -
  from assms(2) have "single_blanks y" "trimmed y" by (simp_all add: normalised_def)
  then show ?thesis
    using assms
    by (simp add: only_letters_spaces_def norm_text_fixed sub_runs_fixed collapse_ws_fixed
        strip_fixed)
qed

lemma only_letters_spaces_fixed:
  "unidecode_like ud
   \<Longrightarrow> only_letters_spaces ud (only_letters_spaces ud s) = only_letters_spaces ud s"
  by (simp add: only_letters_spaces_of_letters only_letters_spaces_normalised
      only_letters_spaces_letters)

lemma squeeze_ws_fixed:
  "length run \<le> 1 \<Longrightarrow> list_all is_space run \<Longrightarrow> single_blanks (run @ u)
   \<Longrightarrow> squeeze_ws run u = run @ u"
proof (induction u arbitrary: run)
  case Nil
  then show ?case by simp
next
  case (Cons c cs)
  show ?case
  proof (cases "is_space c")
    case False
    from Cons.prems(3) have "single_blanks (c # cs)" by (rule single_blanks_append_right)
    then have "single_blanks ([] @ cs)" by simp
    with Cons.IH [of "[]"] have "squeeze_ws [] cs = cs" by simp
    with False Cons.prems(1) show ?thesis by simp
  next
    case True
    have "run = []"
    proof (rule ccontr)
      assume "run \<noteq> []"
      with Cons.prems(1) obtain r where r: "run = [r]" by (cases run) auto
      with Cons.prems(2,3) True show False by auto
    qed
    with Cons.prems(3) have "single_blanks ([c] @ cs)" by simp
    with Cons.IH [of "[c]"] True have "squeeze_ws [c] cs = c # cs" by simp
    with True \<open>run = []\<close> show ?thesis by simp
  qed
qed

lemma clean_address_line_eq:
  assumes "unidecode_like ud"
  shows "clean_address_line ud s = dropWhile (\<lambda>c. \<not> is_AZ09 c) (norm_text ud s)"
    and "normalised (clean_address_line ud s)"
proof -
  define t where "t = norm_text ud s"
  define u where "u = dropWhile (\<lambda>c. \<not> is_AZ09 c) t"
  have nt: "normalised t" unfolding t_def by (rule normalised_norm_text [OF assms])
  then have a: "list_all up_ascii t" "single_blanks t" "trimmed t"
    by (simp_all add: normalised_def)
  have 1: "list_all up_ascii u"
    using a(1) set_dropWhileD [of _ "\<lambda>c. \<not> is_AZ09 c" t] by (auto simp: list_all_iff u_def)
  have 2: "single_blanks u" unfolding u_def using a(2) by (rule single_blanks_dropWhile)
  have 3: "trimmed u"
  proof (cases "u = []")
    case True
    then show ?thesis by (simp add: trimmed_def)
  next
    case False
    then have "is_AZ09 (hd u)" unfolding u_def using hd_dropWhile by blast
    then have h: "\<not> is_space (hd u)" by (simp add: is_word_AZ09 is_word_not_space)
    have "t = takeWhile (\<lambda>c. \<not> is_AZ09 c) t @ u" by (simp add: u_def)
    with False have "last t = last u" by (metis last_appendR)
    moreover from False have "t \<noteq> []" by (auto simp: u_def)
    ultimately have "\<not> is_space (last u)" using a(3) by (simp add: trimmed_def)
    with h show ?thesis by (simp add: trimmed_def)
  qed
  from 2 have "squeeze_ws [] u = u" using squeeze_ws_fixed [of "[]" u] by simp
  with 3 have "clean_address_line ud s = u"
    by (simp add: clean_address_line_def t_def u_def strip_fixed)
  then show "clean_address_line ud s = dropWhile (\<lambda>c. \<not> is_AZ09 c) (norm_text ud s)"
    by (simp add: u_def t_def)
  from 1 2 3 \<open>clean_address_line ud s = u\<close> show "normalised (clean_address_line ud s)"
    by (simp add: normalised_def)
qed

lemma clean_address_line_fixed:
  assumes "unidecode_like ud"
  shows "clean_address_line ud (clean_address_line ud s) = clean_address_line ud s"
proof -
  define u where "u = clean_address_line ud s"
  have n: "normalised u" unfolding u_def by (rule clean_address_line_eq(2) [OF assms])
  have "u = dropWhile (\<lambda>c. \<not> is_AZ09 c) (norm_text ud s)"
    unfolding u_def by (rule clean_address_line_eq(1) [OF assms])
  then have "u = [] \<or> is_AZ09 (hd u)" using hd_dropWhile [of "\<lambda>c. \<not> is_AZ09 c"] by metis
  then have "dropWhile (\<lambda>c. \<not> is_AZ09 c) u = u" by (cases u) auto
  then have "clean_address_line ud u = u"
    using clean_address_line_eq(1) [OF assms, of u] n assms by (simp add: norm_text_fixed)
  then show ?thesis by (simp add: u_def)
qed

lemma up_ascii_AZ09: "is_AZ09 c \<Longrightarrow> up_ascii c"
  by (auto simp: is_AZ09_def is_AZ_def is_digit_def up_ascii_def ascii_upper_char_def Let_def)

lemma single_blanks_solid: "\<forall>c \<in> set z. \<not> is_space c \<Longrightarrow> single_blanks z"
  by (induction z) auto

lemma normalised_AZ09:
  assumes "list_all is_AZ09 z"
  shows "normalised z"
proof -
  from assms have ns: "\<forall>c \<in> set z. \<not> is_space c"
    by (auto simp: list_all_iff is_word_AZ09 is_word_not_space)
  from assms have "list_all up_ascii z" by (auto simp: list_all_iff up_ascii_AZ09)
  moreover have "single_blanks z" using ns by (rule single_blanks_solid)
  moreover have "trimmed z" using ns by (cases z) (auto simp: trimmed_def)
  ultimately show ?thesis by (simp add: normalised_def)
qed

lemma clave_inside:
  assumes "list_all is_AZ09 s" "is_word c"
  shows "search_from CLAVE_ELECTOR_REGEX (Some c) s = None"
  using assms
proof (induction s arbitrary: c)
  case Nil
  have "match_at CLAVE_ELECTOR_REGEX (Some c) [] = None" by (rule no_empty_match) simp
  then show ?case by (simp del: match_at.simps)
next
  case (Cons a s)
  from Cons.prems have w: "is_word a" by (simp add: is_word_AZ09)
  with Cons.prems(2) have "\<not> boundary (Some c) (a # s)" by (simp add: boundary_def)
  then have "match_at CLAVE_ELECTOR_REGEX (Some c) (a # s) = None"
    by (simp add: first_length_def bounded_at_def find_None_iff)
  moreover from Cons.prems(1) w have "search_from CLAVE_ELECTOR_REGEX (Some a) s = None"
    by (intro Cons.IH) simp_all
  ultimately show ?case by simp
qed

lemma first_length_holds: "first_length Q ns = Some n \<Longrightarrow> Q n"
  by (auto simp: first_length_def find_Some_iff)

lemma clave_whole:
  assumes "list_all is_AZ09 z"
  shows "ascii_search CLAVE_ELECTOR_REGEX z = None \<or> ascii_search CLAVE_ELECTOR_REGEX z = Some z"
proof (cases z)
  case Nil
  then show ?thesis by (simp add: search_Nil)
next
  case (Cons a s)
  from assms Cons have w: "is_word a" "list_all is_AZ09 s" by (simp_all add: is_word_AZ09)
  show ?thesis
  proof (cases "match_at CLAVE_ELECTOR_REGEX None z")
    case None
    with Cons clave_inside [OF w(2) w(1)] show ?thesis by (simp add: ascii_search_def)
  next
    case (Some n)
    then have "first_length (\<lambda>k. bounded_at (list_all is_AZ09) k None z)
        [20, 19, 18, 17, 16, 15, 14, 13, 12, 11, 10, 9, 8] = Some n"
      by simp
    then have b: "bounded_at (list_all is_AZ09) n None z" by (rule first_length_holds)
    from clave_stable [OF Some] have pos: "0 < n" by (rule conjunct1)
    from b have n: "n \<le> length z"
      and e: "boundary (Some (z ! (n - 1))) (drop n z)" by (simp_all add: bounded_at_def)
    from pos n have "z ! (n - 1) \<in> set z" by simp
    with assms have wl: "is_word (z ! (n - 1))" by (simp add: list_all_iff is_word_AZ09)
    have "drop n z = []"
    proof (rule ccontr)
      assume ne: "drop n z \<noteq> []"
      then obtain d r where d: "drop n z = d # r" by (cases "drop n z") auto
      then have "d \<in> set z" by (metis in_set_dropD list.set_intros(1))
      with assms have "is_word d" by (simp add: list_all_iff is_word_AZ09)
      with e wl d show False by (simp add: boundary_def)
    qed
    with n have "take n z = z" by simp
    with Some Cons show ?thesis by (simp add: ascii_search_def)
  qed
qed

lemma clean_clave_elector_AZ09: "list_all is_AZ09 (clean_clave_elector ud v)"
proof (cases "ascii_search CLAVE_ELECTOR_REGEX (norm_text ud v)")
  case None
  then show ?thesis by (simp add: clean_clave_elector_def pick_first_regex_def list_all_iff)
next
  case (Some m)
  then have "search_from CLAVE_ELECTOR_REGEX None (norm_text ud v) = Some m"
    by (simp only: ascii_search_def)
  from search_from_Some [OF this] obtain pre s prev n where
    "match_at CLAVE_ELECTOR_REGEX prev s = Some n" "m = take n s"
    by (elim exE conjE)
  with clave_stable have "list_all is_AZ09 m" by blast
  with Some show ?thesis
    by (simp add: clean_clave_elector_def pick_first_regex_def Let_def list_all_iff)
qed

lemma clean_clave_elector_of_AZ09:
  assumes "unidecode_like ud" "list_all is_AZ09 r"
  shows "clean_clave_elector ud r = r"
proof -
  have n: "norm_text ud r = r" using assms by (simp add: norm_text_fixed normalised_AZ09)
  from assms(2) have f: "filter is_AZ09 r = r" by (simp add: list_all_iff)
  from clave_whole [OF assms(2)] show ?thesis
    by (auto simp: clean_clave_elector_def pick_first_regex_def Let_def n f)
qed

lemma clean_clave_elector_fixed:
  "unidecode_like ud
   \<Longrightarrow> clean_clave_elector ud (clean_clave_elector ud v) = clean_clave_elector ud v"
  by (simp add: clean_clave_elector_of_AZ09 clean_clave_elector_AZ09)

lemma sexo_letters_normalised: "normalised ''M''" "normalised ''H''"
  by (simp_all add: normalised_def up_ascii_def ascii_upper_char_def trimmed_def is_space_def)

lemma sexo_search: 
  "ascii_search SEXO_REGEX ''M'' = Some ''M''" "ascii_search SEXO_REGEX ''H'' = Some ''H''"
  by (simp_all add: ascii_search_def sexo_evaluated del: match_at.simps)

lemma pick_sexo_letters:
  assumes "unidecode_like ud"
  shows "pick_first_regex ud ''M'' SEXO_REGEX = ''M''" "pick_first_regex ud ''H'' SEXO_REGEX = ''H''"
    "pick_first_regex ud [] SEXO_REGEX = []"
  using assms
  by (simp_all add: pick_first_regex_def norm_text_fixed sexo_letters_normalised sexo_search
      search_Nil)

lemma clean_ine_sexo_values:
  "clean_ine_sexo ud s = [] \<or> clean_ine_sexo ud s = ''M'' \<or> clean_ine_sexo ud s = ''H''"
  by (simp add: clean_ine_sexo_def split: option.splits)

lemma clean_ine_sexo_fixed:
  assumes "unidecode_like ud"
  shows "clean_ine_sexo ud (clean_ine_sexo ud s) = clean_ine_sexo ud s"
proof -
  have 1: "clean_ine_sexo ud [] = []" 
    using assms by (simp add: clean_ine_sexo_def search_Nil)
  have 2: "clean_ine_sexo ud ''M'' = ''M''"
    using assms
    by (simp add: clean_ine_sexo_def norm_text_fixed sexo_letters_normalised sexo_search
        starts_with_def)
  have 3: "clean_ine_sexo ud ''H'' = ''H''"
    using assms
    by (simp add: clean_ine_sexo_def norm_text_fixed sexo_letters_normalised sexo_search
        starts_with_def)
  from clean_ine_sexo_values [of ud s] 1 2 3 show ?thesis by auto
qed

lemma letter_facts:
  "\<forall>c \<in> set ''ABCDEFGHIJKLMNOPQRSTUVWXYZ''. \<not> is_space c \<and> up_ascii c \<and> is_letter_or_blank c"
  by code_simp

lemma blank_letter: "is_letter_or_blank CHR '' ''"
  by (simp add: is_letter_or_blank_def)

lemmas letters = letter_facts [simplified] blank_letter

lemma estados_normalised:
  "\<forall>st \<in> set ESTADOS. normalised st \<and> list_all is_letter_or_blank st"
  by (simp add: ESTADOS_def letters normalised_def trimmed_def)

lemma estados_found:
  "\<forall>st \<in> set ESTADOS.
     find (\<lambda>cand. cand \<in> set ESTADOS) (concat (map (\<lambda>n. windows n (split_ws [] st)) [3, 2, 1]))
       = Some st"
  by (simp add: letters windows_def ESTADOS_def)

lemma estados_not_empty: "[] \<notin> set ESTADOS"
  by (simp add: ESTADOS_def)

lemma pick_first_state_in_text_values:
  "pick_first_state_in_text ud s = [] \<or> pick_first_state_in_text ud s \<in> set ESTADOS"
proof -
  define ws where "ws = concat (map (\<lambda>n. windows n (split_ws [] (only_letters_spaces ud s))) [3, 2, 1])"
  show ?thesis
  proof (cases "find (\<lambda>cand. cand \<in> set ESTADOS) ws")
    case None
    then show ?thesis by (simp add: pick_first_state_in_text_def Let_def ws_def)
  next
    case (Some c)
    then have "c \<in> set ESTADOS" by (auto simp: find_Some_iff)
    with Some show ?thesis by (simp add: pick_first_state_in_text_def Let_def ws_def)
  qed
qed

lemma pick_first_state_in_text_of_state:
  assumes "unidecode_like ud" "st \<in> set ESTADOS"
  shows "pick_first_state_in_text ud st = st"
proof -
  from assms(2) estados_normalised have "normalised st" "list_all is_letter_or_blank st"
    by blast+
  with assms(1) have "only_letters_spaces ud st = st" by (rule only_letters_spaces_of_letters)
  moreover from assms(2) estados_found have
    "find (\<lambda>cand. cand \<in> set ESTADOS) (concat (map (\<lambda>n. windows n (split_ws [] st)) [3, 2, 1]))
       = Some st"
    by blast
  ultimately show ?thesis by (simp only: pick_first_state_in_text_def Let_def option.case)
qed

lemma pick_first_state_in_text_letters:
  "unidecode_like ud
   \<Longrightarrow> pick_first_state_in_text ud (only_letters_spaces ud x) = pick_first_state_in_text ud x"
  by (simp only: pick_first_state_in_text_def only_letters_spaces_fixed)

lemma map_values_fst [simp]: "map fst (map_values g d) = map fst d"
  by (induction d) (auto simp: map_values_def)

lemma map_values_comp:
  "map_values g (map_values h d) = map_values (\<lambda>k v. g k (h k v)) d"
  by (induction d) (auto simp: map_values_def)

lemma map_values_cong:
  "(\<And>k v. (k, v) \<in> set d \<Longrightarrow> g k v = h k v) \<Longrightarrow> map_values g d = map_values h d"
  by (induction d) (auto simp: map_values_def)

lemma map_values_id: "map_values (\<lambda>k v. v) d = d"
  by (induction d) (auto simp: map_values_def)

lemma set_map_values: "set (map_values g d) = (\<lambda>(k, v). (k, g k v)) ` set d"
  by (simp add: map_values_def)

lemma map_values_absent: "k \<notin> fst ` set d \<Longrightarrow> map_values (at_key k f) d = d"
  by (induction d) (auto simp: map_values_def at_key_def)

lemma at_key_same: "at_key k (\<lambda>v. v) = (\<lambda>k v. v)"
  by (intro ext) (simp add: at_key_def)

lemma dict_set_map_values:
  "distinct (map fst d) \<Longrightarrow> map_of d k = Some v
   \<Longrightarrow> dict_set d k (f v) = map_values (at_key k f) d"
proof (induction d)
  case Nil
  then show ?case by simp
next
  case (Cons p d)
  obtain k' v' where p: "p = (k', v')" by (cases p)
  show ?case
  proof (cases "k' = k")
    case True
    with Cons.prems p have v: "v' = v" and "k \<notin> fst ` set d" by auto
    then have "map_values (at_key k f) d = d" by (simp add: map_values_absent)
    with True v p show ?thesis by (simp add: map_values_def at_key_def)
  next
    case False
    with Cons.prems p have "distinct (map fst d)" "map_of d k = Some v" by auto
    from Cons.IH [OF this] False p show ?thesis by (simp add: map_values_def at_key_def)
  qed
qed

lemma on_key_map_values:
  assumes "distinct (map fst d)"
  shows "on_key k f d = map_values (at_key k f) d"
proof (cases "map_of d k")
  case None
  then have "k \<notin> fst ` set d" by (simp add: map_of_eq_None_iff)
  then have "map_values (at_key k f) d = d" by (rule map_values_absent)
  with None show ?thesis by (simp add: on_key_def)
next
  case (Some v)
  with dict_set_map_values [OF assms Some, of f] show ?thesis by (simp add: on_key_def)
qed

lemma on_key_nonempty_on_key:
  assumes "distinct (map fst d)"
  shows "on_key_nonempty k f d = on_key k (\<lambda>v. if v = [] then v else f v) d"
proof (cases "map_of d k")
  case None
  then show ?thesis by (simp add: on_key_def on_key_nonempty_def)
next
  case (Some v)
  show ?thesis
  proof (cases "v = []")
    case True
    from dict_set_map_values [OF assms Some, of "\<lambda>v. v"]
    have "dict_set d k v = d" by (simp add: at_key_same map_values_id)
    with Some True show ?thesis by (simp add: on_key_def on_key_nonempty_def)
  next
    case False
    with Some show ?thesis by (simp add: on_key_def on_key_nonempty_def)
  qed
qed

lemma strip_prefix_step_map_values:
  assumes "distinct (map fst d)"
  shows "strip_prefix_step ud tipo k d = map_values (at_key k (strip_label ud tipo k)) d"
proof -
  have "(\<lambda>v. if v = [] then v else strip_any_prefix ud v (prefixes_of tipo k))
          = strip_label ud tipo k"
    by (rule ext) (simp add: strip_label_def)
  then show ?thesis
    by (simp add: strip_prefix_step_def on_key_nonempty_on_key [OF assms]
        on_key_map_values [OF assms])
qed

lemma ine_steps_map_values:
  assumes "distinct (map fst d)"
  shows "fold (\<lambda>step out. step out) (ine_steps ud) d = map_values (ine_value ud) d"
proof -
  have "fold (\<lambda>step out. step out) (ine_steps ud) d =
    map_values (\<lambda>k v.
      at_key ''domicilio'' (clean_address_line ud) k
       (at_key ''curp'' (\<lambda>v. pick_first_regex ud v CURP_REGEX) k
        (at_key ''clave_elector'' (clean_clave_elector ud) k
         (at_key ''fecha_nacimiento'' (\<lambda>v. pick_first_regex ud v DATE_REGEX) k
          (at_key ''vigencia'' (\<lambda>v. pick_first_regex ud v VIG_REGEX) k
           (at_key ''seccion'' (\<lambda>v. pick_first_regex ud v SECCION_REGEX) k
            (at_key ''anio_registro'' (\<lambda>v. pick_first_regex ud v YEAR_REGEX) k
             (at_key ''sexo'' (clean_ine_sexo ud) k
              (at_key ''seccion'' (strip_label ud ''ine'' ''seccion'') k
               (at_key ''vigencia'' (strip_label ud ''ine'' ''vigencia'') k
                (at_key ''fecha_nacimiento'' (strip_label ud ''ine'' ''fecha_nacimiento'') k
                 (at_key ''clave_elector'' (strip_label ud ''ine'' ''clave_elector'') k
                  (at_key ''domicilio'' (strip_label ud ''ine'' ''domicilio'') k
                   (at_key ''nombre'' (strip_label ud ''ine'' ''nombre'') k v)))))))))))))) d"
    using assms
    by (simp add: ine_steps_def strip_prefix_step_map_values on_key_map_values map_values_comp)
  also have "\<dots> = map_values (ine_value ud) d"
  proof (rule map_values_cong)
    fix k v
    consider "k = ''nombre''" | "k = ''domicilio''" | "k = ''clave_elector''"
      | "k = ''fecha_nacimiento''" | "k = ''vigencia''" | "k = ''seccion''" | "k = ''sexo''"
      | "k = ''anio_registro''" | "k = ''curp''"
      | "k \<notin> set [''nombre'', ''domicilio'', ''clave_elector'', ''fecha_nacimiento'',
                    ''vigencia'', ''seccion'', ''sexo'', ''anio_registro'', ''curp'']"
      by auto
    then show "at_key ''domicilio'' (clean_address_line ud) k
       (at_key ''curp'' (\<lambda>v. pick_first_regex ud v CURP_REGEX) k
        (at_key ''clave_elector'' (clean_clave_elector ud) k
         (at_key ''fecha_nacimiento'' (\<lambda>v. pick_first_regex ud v DATE_REGEX) k
          (at_key ''vigencia'' (\<lambda>v. pick_first_regex ud v VIG_REGEX) k
           (at_key ''seccion'' (\<lambda>v. pick_first_regex ud v SECCION_REGEX) k
            (at_key ''anio_registro'' (\<lambda>v. pick_first_regex ud v YEAR_REGEX) k
             (at_key ''sexo'' (clean_ine_sexo ud) k
              (at_key ''seccion'' (strip_label ud ''ine'' ''seccion'') k
               (at_key ''vigencia'' (strip_label ud ''ine'' ''vigencia'') k
                (at_key ''fecha_nacimiento'' (strip_label ud ''ine'' ''fecha_nacimiento'') k
                 (at_key ''clave_elector'' (strip_label ud ''ine'' ''clave_elector'') k
                  (at_key ''domicilio'' (strip_label ud ''ine'' ''domicilio'') k
                   (at_key ''nombre'' (strip_label ud ''ine'' ''nombre'') k v)))))))))))))
        = ine_value ud k v"
      by cases (simp_all add: at_key_def ine_value_def)
  qed
  finally show ?thesis .
qed

lemma curp_steps_map_values:
  assumes "distinct (map fst d)"
  shows "fold (\<lambda>step out. step out) (curp_steps ud) d = map_values (curp_value ud) d"
proof -
  have "fold (\<lambda>step out. step out) (curp_steps ud) d =
    map_values (\<lambda>k v.
      at_key ''entidad_registro'' (state_or_letters ud) k
       (at_key ''nombre'' (only_letters_spaces ud) k
        (at_key ''nombre'' (\<lambda>v. strip_any_prefix ud v (prefixes_of ''curp'' ''nombre'')) k
         (at_key ''curp'' (\<lambda>v. pick_first_regex ud v CURP_REGEX) k v)))) d"
    using assms by (simp add: curp_steps_def on_key_map_values map_values_comp)
  also have "\<dots> = map_values (curp_value ud) d"
  proof (rule map_values_cong)
    fix k v
    consider "k = ''curp''" | "k = ''nombre''" | "k = ''entidad_registro''"
      | "k \<notin> set [''curp'', ''nombre'', ''entidad_registro'']"
      by auto
    then show "at_key ''entidad_registro'' (state_or_letters ud) k
       (at_key ''nombre'' (only_letters_spaces ud) k
        (at_key ''nombre'' (\<lambda>v. strip_any_prefix ud v (prefixes_of ''curp'' ''nombre'')) k
         (at_key ''curp'' (\<lambda>v. pick_first_regex ud v CURP_REGEX) k v)))
        = curp_value ud k v"
      by cases (simp_all add: at_key_def curp_value_def)
  qed
  finally show ?thesis .
qed

lemma acta_steps_map_values:
  assumes "distinct (map fst d)"
  shows "fold (\<lambda>step out. step out) (acta_steps ud) d = map_values (acta_value ud) d"
proof -
  have "fold (\<lambda>step out. step out) (acta_steps ud) d =
    map_values (\<lambda>k v.
      at_key ''entidad_registro'' (state_or_same ud) k
       (at_key ''fecha_nacimiento'' (\<lambda>v. pick_first_regex ud v DATE_REGEX) k
        (at_key ''sexo'' (sexo_letter ud) k
         (at_key ''municipio_registro'' (only_letters_spaces ud) k
          (at_key ''lugar_nacimiento'' (only_letters_spaces ud) k
           (at_key ''segundo_apellido'' (only_letters_spaces ud) k
            (at_key ''primer_apellido'' (only_letters_spaces ud) k
             (at_key ''nombres'' (only_letters_spaces ud) k
              (at_key ''lugar_nacimiento'' (strip_label ud ''acta'' ''lugar_nacimiento'') k
               (at_key ''fecha_nacimiento'' (strip_label ud ''acta'' ''fecha_nacimiento'') k
                (at_key ''sexo'' (strip_label ud ''acta'' ''sexo'') k
                 (at_key ''municipio_registro''
                    (strip_label ud ''acta'' ''municipio_registro'') k
                  (at_key ''entidad_registro'' (strip_label ud ''acta'' ''entidad_registro'') k
                   (at_key ''segundo_apellido''
                      (strip_label ud ''acta'' ''segundo_apellido'') k
                    (at_key ''primer_apellido'' (strip_label ud ''acta'' ''primer_apellido'') k
                     (at_key ''nombres'' (strip_label ud ''acta'' ''nombres'') k
                      (at_key ''curp'' (\<lambda>v. pick_first_regex ud v CURP_REGEX) k
                         v))))))))))))))))) d"
    using assms
    by (simp add: acta_steps_def strip_prefix_step_map_values on_key_map_values map_values_comp)
  also have "\<dots> = map_values (acta_value ud) d"
  proof (rule map_values_cong)
    fix k v
    consider "k = ''curp''" | "k = ''nombres''" | "k = ''primer_apellido''"
      | "k = ''segundo_apellido''" | "k = ''entidad_registro''" | "k = ''municipio_registro''"
      | "k = ''sexo''" | "k = ''fecha_nacimiento''" | "k = ''lugar_nacimiento''"
      | "k \<notin> set [''curp'', ''nombres'', ''primer_apellido'', ''segundo_apellido'',
                    ''entidad_registro'', ''municipio_registro'', ''sexo'',
                    ''fecha_nacimiento'', ''lugar_nacimiento'']"
      by auto
    then show "at_key ''entidad_registro'' (state_or_same ud) k
       (at_key ''fecha_nacimiento'' (\<lambda>v. pick_first_regex ud v DATE_REGEX) k
        (at_key ''sexo'' (sexo_letter ud) k
         (at_key ''municipio_registro'' (only_letters_spaces ud) k
          (at_key ''lugar_nacimiento'' (only_letters_spaces ud) k
           (at_key ''segundo_apellido'' (only_letters_spaces ud) k
            (at_key ''primer_apellido'' (only_letters_spaces ud) k
             (at_key ''nombres'' (only_letters_spaces ud) k
              (at_key ''lugar_nacimiento'' (strip_label ud ''acta'' ''lugar_nacimiento'') k
               (at_key ''fecha_nacimiento'' (strip_label ud ''acta'' ''fecha_nacimiento'') k
                (at_key ''sexo'' (strip_label ud ''acta'' ''sexo'') k
                 (at_key ''municipio_registro''
                    (strip_label ud ''acta'' ''municipio_registro'') k
                  (at_key ''entidad_registro'' (strip_label ud ''acta'' ''entidad_registro'') k
                   (at_key ''segundo_apellido''
                      (strip_label ud ''acta'' ''segundo_apellido'') k
                    (at_key ''primer_apellido'' (strip_label ud ''acta'' ''primer_apellido'') k
                     (at_key ''nombres'' (strip_label ud ''acta'' ''nombres'') k
                      (at_key ''curp'' (\<lambda>v. pick_first_regex ud v CURP_REGEX) k
                         v))))))))))))))))
        = acta_value ud k v"
      by cases (simp_all add: at_key_def acta_value_def)
  qed
  finally show ?thesis .
qed

lemma post_process_map_values:
  assumes "distinct (map fst d)"
  shows "post_process_document_fields ud tipo d = map_values (cleaned_value ud tipo) d"
proof -
  have c: "cleaned_value ud tipo =
      (if tipo = ''ine'' then ine_value ud else if tipo = ''curp'' then curp_value ud
       else if tipo = ''acta'' then acta_value ud else (\<lambda>k v. v))"
    by (intro ext) (simp add: cleaned_value_def)
  show ?thesis
    unfolding post_process_document_fields_def c
    using assms
    by (simp add: ine_steps_map_values curp_steps_map_values acta_steps_map_values
        map_values_id)
qed

lemma strip_label_normalised:
  "unidecode_like ud \<Longrightarrow> normalised (strip_label ud tipo k v)"
  by (simp add: strip_label_def strip_any_prefix_normalised)

lemma strip_label_fixed:
  assumes "unidecode_like ud" "normalised r"
    and "\<forall>p \<in> set (prefixes_of tipo k). \<not> starts_with r (norm_text ud p)"
  shows "strip_label ud tipo k r = r"
  using assms by (simp add: strip_label_def strip_any_prefix_fixed)

lemma label_then_fixed:
  assumes "unidecode_like ud"
    and "\<And>x. normalised (f x)" and "\<And>x. f (f x) = f x"
    and "\<forall>p \<in> set (prefixes_of tipo k).
           \<not> starts_with (f (strip_label ud tipo k v)) (norm_text ud p)"
  shows "f (strip_label ud tipo k (f (strip_label ud tipo k v))) = f (strip_label ud tipo k v)"
proof -
  have "strip_label ud tipo k (f (strip_label ud tipo k v)) = f (strip_label ud tipo k v)"
    by (rule strip_label_fixed [OF assms(1) assms(2) assms(4)])
  then show ?thesis by (simp add: assms(3))
qed

lemma cleaner_patterns [simp]:
  "\<forall>w. CURP_REGEX \<noteq> WORDS w" "\<forall>w. YEAR_REGEX \<noteq> WORDS w" "\<forall>w. DATE_REGEX \<noteq> WORDS w"
  "\<forall>w. VIG_REGEX \<noteq> WORDS w" "\<forall>w. SECCION_REGEX \<noteq> WORDS w" "\<forall>w. SEXO_REGEX \<noteq> WORDS w"
  "\<forall>w. CLAVE_ELECTOR_REGEX \<noteq> WORDS w"
  by simp_all

lemma clean_clave_elector_normalised: "normalised (clean_clave_elector ud v)"
  by (rule normalised_AZ09) (rule clean_clave_elector_AZ09)

lemma ine_value_fixed:
  assumes U: "unidecode_like ud"
    and L: "\<forall>p \<in> set (prefixes_of ''ine'' k). \<not> starts_with (ine_value ud k v) (norm_text ud p)"
  shows "ine_value ud k (ine_value ud k v) = ine_value ud k v"
proof -
  note pick_n = pick_first_regex_normalised [OF U]
  note pick_f = pick_first_regex_fixed [OF U]
  consider "k = ''nombre''" | "k = ''domicilio''" | "k = ''clave_elector''"
    | "k = ''fecha_nacimiento''" | "k = ''vigencia''" | "k = ''seccion''" | "k = ''sexo''"
    | "k = ''anio_registro''" | "k = ''curp''"
    | "k \<notin> set [''nombre'', ''domicilio'', ''clave_elector'', ''fecha_nacimiento'',
                  ''vigencia'', ''seccion'', ''sexo'', ''anio_registro'', ''curp'']"
    by auto
  then show ?thesis
  proof cases
    case 1
    with L have "\<forall>p \<in> set (prefixes_of ''ine'' ''nombre'').
        \<not> starts_with (strip_label ud ''ine'' ''nombre'' v) (norm_text ud p)"
      by (simp add: ine_value_def)
    from strip_label_fixed [OF U strip_label_normalised [OF U] this] 1
    show ?thesis by (simp add: ine_value_def)
  next
    case 2
    with L have "\<forall>p \<in> set (prefixes_of ''ine'' ''domicilio'').
        \<not> starts_with (clean_address_line ud (strip_label ud ''ine'' ''domicilio'' v))
            (norm_text ud p)"
      by (simp add: ine_value_def)
    from label_then_fixed [of ud "clean_address_line ud", OF U
        clean_address_line_eq(2) [OF U] clean_address_line_fixed [OF U] this] 2
    show ?thesis by (simp add: ine_value_def)
  next
    case 3
    with L have "\<forall>p \<in> set (prefixes_of ''ine'' ''clave_elector'').
        \<not> starts_with (clean_clave_elector ud (strip_label ud ''ine'' ''clave_elector'' v))
            (norm_text ud p)"
      by (simp add: ine_value_def)
    from label_then_fixed [of ud "clean_clave_elector ud", OF U
        clean_clave_elector_normalised clean_clave_elector_fixed [OF U] this] 3
    show ?thesis by (simp add: ine_value_def)
  next
    case 4
    with L have "\<forall>p \<in> set (prefixes_of ''ine'' ''fecha_nacimiento'').
        \<not> starts_with (pick_first_regex ud (strip_label ud ''ine'' ''fecha_nacimiento'' v)
              DATE_REGEX) (norm_text ud p)"
      by (simp add: ine_value_def)
    from label_then_fixed [of ud "\<lambda>x. pick_first_regex ud x DATE_REGEX", OF U
        pick_n pick_f this] 4
    show ?thesis by (simp add: ine_value_def)
  next
    case 5
    with L have "\<forall>p \<in> set (prefixes_of ''ine'' ''vigencia'').
        \<not> starts_with (pick_first_regex ud (strip_label ud ''ine'' ''vigencia'' v)
              VIG_REGEX) (norm_text ud p)"
      by (simp add: ine_value_def)
    from label_then_fixed [of ud "\<lambda>x. pick_first_regex ud x VIG_REGEX", OF U
        pick_n pick_f this] 5
    show ?thesis by (simp add: ine_value_def)
  next
    case 6
    with L have "\<forall>p \<in> set (prefixes_of ''ine'' ''seccion'').
        \<not> starts_with (pick_first_regex ud (strip_label ud ''ine'' ''seccion'' v)
              SECCION_REGEX) (norm_text ud p)"
      by (simp add: ine_value_def)
    from label_then_fixed [of ud "\<lambda>x. pick_first_regex ud x SECCION_REGEX", OF U
        pick_n pick_f this] 6
    show ?thesis by (simp add: ine_value_def)
  next
    case 7
    then show ?thesis by (simp add: ine_value_def clean_ine_sexo_fixed [OF U])
  next
    case 8
    then show ?thesis by (simp add: ine_value_def pick_f)
  next
    case 9
    then show ?thesis by (simp add: ine_value_def pick_f)
  next
    case 10
    then show ?thesis by (simp add: ine_value_def)
  qed
qed

lemma state_normalised:
  assumes "st \<in> set ESTADOS"
  shows "normalised st"
  using assms estados_normalised by blast

lemma state_or_letters_fixed:
  assumes U: "unidecode_like ud"
    and L: "\<forall>p \<in> set (prefixes_of ''curp'' ''entidad_registro'').
              \<not> starts_with (state_or_letters ud v) (norm_text ud p)"
  shows "state_or_letters ud (state_or_letters ud v) = state_or_letters ud v"
proof -
  define tmp where "tmp = strip_any_prefix ud v (prefixes_of ''curp'' ''entidad_registro'')"
  define r where "r = state_or_letters ud v"
  have r: "r = (if pick_first_state_in_text ud tmp \<noteq> [] then pick_first_state_in_text ud tmp
                else only_letters_spaces ud tmp)"
    by (simp add: r_def state_or_letters_def Let_def tmp_def)
  have nr: "normalised r"
  proof (cases "pick_first_state_in_text ud tmp = []")
    case True
    with r show ?thesis by (simp add: only_letters_spaces_normalised [OF U])
  next
    case False
    with pick_first_state_in_text_values [of ud tmp] r show ?thesis
      by (simp add: state_normalised)
  qed
  from L have "\<forall>p \<in> set (prefixes_of ''curp'' ''entidad_registro'').
              \<not> starts_with r (norm_text ud p)"
    by (simp add: r_def)
  from strip_any_prefix_fixed [OF U nr this]
  have s: "strip_any_prefix ud r (prefixes_of ''curp'' ''entidad_registro'') = r" .
  have "state_or_letters ud r = r"
  proof (cases "pick_first_state_in_text ud tmp = []")
    case True
    with r have y: "r = only_letters_spaces ud tmp" by simp
    then have "pick_first_state_in_text ud r = []"
      using True by (simp add: pick_first_state_in_text_letters [OF U])
    moreover have "only_letters_spaces ud r = r"
      unfolding y by (rule only_letters_spaces_fixed [OF U])
    ultimately show ?thesis by (simp add: state_or_letters_def Let_def s)
  next
    case False
    with pick_first_state_in_text_values [of ud tmp] r have "r \<in> set ESTADOS" by simp
    from pick_first_state_in_text_of_state [OF U this] this estados_not_empty
    show ?thesis by (auto simp: state_or_letters_def Let_def s)
  qed
  then show ?thesis by (simp add: r_def)
qed

lemma curp_value_fixed:
  assumes U: "unidecode_like ud"
    and L: "\<forall>p \<in> set (prefixes_of ''curp'' k). \<not> starts_with (curp_value ud k v) (norm_text ud p)"
  shows "curp_value ud k (curp_value ud k v) = curp_value ud k v"
proof -
  consider "k = ''curp''" | "k = ''nombre''" | "k = ''entidad_registro''"
    | "k \<notin> set [''curp'', ''nombre'', ''entidad_registro'']"
    by auto
  then show ?thesis
  proof cases
    case 1
    then show ?thesis by (simp add: curp_value_def pick_first_regex_fixed [OF U])
  next
    case 2
    define r where
      "r = only_letters_spaces ud (strip_any_prefix ud v (prefixes_of ''curp'' ''nombre''))"
    have nr: "normalised r" unfolding r_def by (rule only_letters_spaces_normalised [OF U])
    from L 2 have "\<forall>p \<in> set (prefixes_of ''curp'' ''nombre'').
              \<not> starts_with r (norm_text ud p)"
      by (simp add: curp_value_def r_def)
    from strip_any_prefix_fixed [OF U nr this]
    have "strip_any_prefix ud r (prefixes_of ''curp'' ''nombre'') = r" .
    moreover have "only_letters_spaces ud r = r"
      unfolding r_def by (rule only_letters_spaces_fixed [OF U])
    ultimately show ?thesis using 2 by (simp add: curp_value_def r_def [symmetric])
  next
    case 3
    with L have "\<forall>p \<in> set (prefixes_of ''curp'' ''entidad_registro'').
              \<not> starts_with (state_or_letters ud v) (norm_text ud p)"
      by (simp add: curp_value_def)
    from state_or_letters_fixed [OF U this] 3 show ?thesis by (simp add: curp_value_def)
  next
    case 4
    then show ?thesis by (simp add: curp_value_def)
  qed
qed

lemma sexo_letter_values:
  "sexo_letter ud x = [] \<or> sexo_letter ud x = ''M'' \<or> sexo_letter ud x = ''H''"
  by (simp add: sexo_letter_def Let_def)

lemma sexo_letter_normalised: "normalised (sexo_letter ud x)"
  using sexo_letter_values [of ud x] sexo_letters_normalised by auto

lemma sexo_letter_fixed:
  assumes "unidecode_like ud"
  shows "sexo_letter ud (sexo_letter ud x) = sexo_letter ud x"
proof -
  have "sexo_letter ud [] = []" "sexo_letter ud ''M'' = ''M''" "sexo_letter ud ''H'' = ''H''"
    by (simp_all add: sexo_letter_def Let_def pick_sexo_letters [OF assms] starts_with_def)
  with sexo_letter_values [of ud x] show ?thesis by auto
qed

lemma state_or_same_label_fixed:
  assumes U: "unidecode_like ud"
    and L: "\<forall>p \<in> set (prefixes_of tipo k).
              \<not> starts_with (state_or_same ud (strip_label ud tipo k v)) (norm_text ud p)"
  shows "state_or_same ud (strip_label ud tipo k (state_or_same ud (strip_label ud tipo k v)))
           = state_or_same ud (strip_label ud tipo k v)"
proof -
  define x where "x = strip_label ud tipo k v"
  define r where "r = state_or_same ud x"
  have nx: "normalised x" unfolding x_def by (rule strip_label_normalised [OF U])
  have r: "r = (if pick_first_state_in_text ud x \<noteq> [] then pick_first_state_in_text ud x else x)"
    by (simp add: r_def state_or_same_def Let_def)
  have nr: "normalised r"
  proof (cases "pick_first_state_in_text ud x = []")
    case True
    with r nx show ?thesis by simp
  next
    case False
    with pick_first_state_in_text_values [of ud x] r show ?thesis
      by (simp add: state_normalised)
  qed
  from L have "\<forall>p \<in> set (prefixes_of tipo k). \<not> starts_with r (norm_text ud p)"
    by (simp add: r_def x_def)
  from strip_label_fixed [OF U nr this] have s: "strip_label ud tipo k r = r" .
  have "state_or_same ud r = r"
  proof (cases "pick_first_state_in_text ud x = []")
    case True
    with r show ?thesis by (simp add: state_or_same_def Let_def)
  next
    case False
    with pick_first_state_in_text_values [of ud x] r have "r \<in> set ESTADOS" by simp
    from pick_first_state_in_text_of_state [OF U this] show ?thesis
      by (simp add: state_or_same_def Let_def)
  qed
  with s show ?thesis by (simp add: r_def x_def)
qed

lemma acta_value_fixed:
  assumes U: "unidecode_like ud"
    and L: "\<forall>p \<in> set (prefixes_of ''acta'' k). \<not> starts_with (acta_value ud k v) (norm_text ud p)"
  shows "acta_value ud k (acta_value ud k v) = acta_value ud k v"
proof -
  consider "k = ''curp''"
    | "k \<in> set [''nombres'', ''primer_apellido'', ''segundo_apellido'', ''lugar_nacimiento'',
                  ''municipio_registro'']"
    | "k = ''sexo''" | "k = ''fecha_nacimiento''" | "k = ''entidad_registro''"
    | "k \<notin> set [''curp'', ''nombres'', ''primer_apellido'', ''segundo_apellido'',
                  ''lugar_nacimiento'', ''municipio_registro'', ''sexo'', ''fecha_nacimiento'',
                  ''entidad_registro'']"
    by auto
  then show ?thesis
  proof cases
    case 1
    then show ?thesis by (simp add: acta_value_def pick_first_regex_fixed [OF U])
  next
    case 2
    then have v: "acta_value ud k = (\<lambda>v. only_letters_spaces ud (strip_label ud ''acta'' k v))"
      by (intro ext) (auto simp: acta_value_def)
    from L have "\<forall>p \<in> set (prefixes_of ''acta'' k).
        \<not> starts_with (only_letters_spaces ud (strip_label ud ''acta'' k v)) (norm_text ud p)"
      by (simp add: v)
    from label_then_fixed [of ud "only_letters_spaces ud", OF U
        only_letters_spaces_normalised [OF U] only_letters_spaces_fixed [OF U] this]
    show ?thesis by (simp add: v)
  next
    case 3
    then have v: "acta_value ud k = (\<lambda>v. sexo_letter ud (strip_label ud ''acta'' k v))"
      by (intro ext) (simp add: acta_value_def)
    from L have "\<forall>p \<in> set (prefixes_of ''acta'' k).
        \<not> starts_with (sexo_letter ud (strip_label ud ''acta'' k v)) (norm_text ud p)"
      by (simp add: v)
    from label_then_fixed [of ud "sexo_letter ud", OF U
        sexo_letter_normalised sexo_letter_fixed [OF U] this]
    show ?thesis by (simp add: v)
  next
    case 4
    then have v: "acta_value ud k
        = (\<lambda>v. pick_first_regex ud (strip_label ud ''acta'' k v) DATE_REGEX)"
      by (intro ext) (simp add: acta_value_def)
    from L have "\<forall>p \<in> set (prefixes_of ''acta'' k).
        \<not> starts_with (pick_first_regex ud (strip_label ud ''acta'' k v) DATE_REGEX)
            (norm_text ud p)"
      by (simp add: v)
    from label_then_fixed [of ud "\<lambda>x. pick_first_regex ud x DATE_REGEX", OF U
        pick_first_regex_normalised [OF U] pick_first_regex_fixed [OF U] this]
    show ?thesis by (simp add: v)
  next
    case 5
    then have v: "acta_value ud k = (\<lambda>v. state_or_same ud (strip_label ud ''acta'' k v))"
      by (intro ext) (simp add: acta_value_def)
    from L have "\<forall>p \<in> set (prefixes_of ''acta'' k).
        \<not> starts_with (state_or_same ud (strip_label ud ''acta'' k v)) (norm_text ud p)"
      by (simp add: v)
    from state_or_same_label_fixed [OF U this] show ?thesis by (simp add: v)
  next
    case 6
    then show ?thesis by (simp add: acta_value_def)
  qed
qed

lemma cleaned_value_fixed:
  assumes "unidecode_like ud"
    and "\<forall>p \<in> set (prefixes_of tipo k).
           \<not> starts_with (cleaned_value ud tipo k v) (norm_text ud p)"
  shows "cleaned_value ud tipo k (cleaned_value ud tipo k v) = cleaned_value ud tipo k v"
  using assms
  by (auto simp: cleaned_value_def ine_value_fixed curp_value_fixed acta_value_fixed)

lemma unidecode_like_ascii_only: "unidecode_like ascii_only"
  by (auto simp: unidecode_like_def ascii_text_def ascii_only_def list_all_iff
      intro: filter_True)

text \<open>
  Claim C4 says that the cleaner, applied to its own output, returns it unchanged.
  \<open>_strip_any_prefix\<close> removes one label and stops: for the type \<open>ine\<close>, the name
  \<open>NOMBRE NOMBRE JUAN\<close> is cleaned to \<open>NOMBRE JUAN\<close>, and this one to \<open>JUAN\<close>.
\<close>

theorem cleaner_relabelled_counterexample:
  "post_process_document_fields ascii_only ''ine'' [(''nombre'', ''NOMBRE NOMBRE JUAN'')]
     = [(''nombre'', ''NOMBRE JUAN'')]
   \<and> post_process_document_fields ascii_only ''ine'' [(''nombre'', ''NOMBRE JUAN'')]
     = [(''nombre'', ''JUAN'')]
   \<and> post_process_document_fields ascii_only ''ine''
        (post_process_document_fields ascii_only ''ine'' [(''nombre'', ''NOMBRE NOMBRE JUAN'')])
     \<noteq> post_process_document_fields ascii_only ''ine'' [(''nombre'', ''NOMBRE NOMBRE JUAN'')]"
  by code_simp

text \<open>
  Claim C4, amended. For every document type and every field map (a dictionary, so that its
  keys are distinct): when no value of the cleaned map begins with a label that the cleaner
  strips from its key (a prefix of \<open>LABEL_PREFIXES\<close> for the type and the key, normalised),
  applying \<open>_post_process_document_fields\<close> to the cleaned map returns it unchanged, in the
  same order. Of \<open>unidecode\<close> the proof uses that it returns ASCII text and leaves ASCII
  text as it is.
\<close>

theorem cleaner_idempotent_without_labels:
  assumes "unidecode_like ud" and "distinct (map fst field_map)"
    and "label_free ud tipo (post_process_document_fields ud tipo field_map)"
  shows "post_process_document_fields ud tipo (post_process_document_fields ud tipo field_map)
           = post_process_document_fields ud tipo field_map"
proof -
  define g where "g = cleaned_value ud tipo"
  have p: "post_process_document_fields ud tipo field_map = map_values g field_map"
    unfolding g_def by (rule post_process_map_values [OF assms(2)])
  have d: "distinct (map fst (map_values g field_map))" using assms(2) by simp
  have "post_process_document_fields ud tipo (map_values g field_map)
          = map_values g (map_values g field_map)"
    unfolding g_def by (rule post_process_map_values [OF d [unfolded g_def]])
  also have "\<dots> = map_values (\<lambda>k v. g k (g k v)) field_map" by (rule map_values_comp)
  also have "\<dots> = map_values g field_map"
  proof (rule map_values_cong)
    fix k v
    assume "(k, v) \<in> set field_map"
    then have "(k, g k v) \<in> set (map_values g field_map)"
      by (force simp: set_map_values)
    with assms(3) have "\<forall>p \<in> set (prefixes_of tipo k). \<not> starts_with (g k v) (norm_text ud p)"
      unfolding p label_free_def by blast
    then show "g k (g k v) = g k v"
      unfolding g_def by (rule cleaned_value_fixed [OF assms(1)])
  qed
  finally show ?thesis by (simp add: p)
qed

theorem cleaner_idempotent_without_labels_witness:
  "unidecode_like ascii_only
   \<and> distinct (map fst
         [(''nombre'', ''Nombre  Juan Perez''), (''sexo'', ''sexo: mujer''),
          (''domicilio'', ''domicilio: - C 5   de mayo 12''), (''vigencia'', ''2019 - 2029''),
          (''seccion'', ''SECCION 0123''), (''otro'', '' x '')])
   \<and> label_free ascii_only ''ine''
        (post_process_document_fields ascii_only ''ine''
           [(''nombre'', ''Nombre  Juan Perez''), (''sexo'', ''sexo: mujer''),
            (''domicilio'', ''domicilio: - C 5   de mayo 12''), (''vigencia'', ''2019 - 2029''),
            (''seccion'', ''SECCION 0123''), (''otro'', '' x '')])
   \<and> post_process_document_fields ascii_only ''ine''
        (post_process_document_fields ascii_only ''ine''
           [(''nombre'', ''Nombre  Juan Perez''), (''sexo'', ''sexo: mujer''),
            (''domicilio'', ''domicilio: - C 5   de mayo 12''), (''vigencia'', ''2019 - 2029''),
            (''seccion'', ''SECCION 0123''), (''otro'', '' x '')])
       = post_process_document_fields ascii_only ''ine''
           [(''nombre'', ''Nombre  Juan Perez''), (''sexo'', ''sexo: mujer''),
            (''domicilio'', ''domicilio: - C 5   de mayo 12''), (''vigencia'', ''2019 - 2029''),
            (''seccion'', ''SECCION 0123''), (''otro'', '' x '')]"
proof -
  have d: "distinct (map fst
         [(''nombre'', ''Nombre  Juan Perez''), (''sexo'', ''sexo: mujer''),
          (''domicilio'', ''domicilio: - C 5   de mayo 12''), (''vigencia'', ''2019 - 2029''),
          (''seccion'', ''SECCION 0123''), (''otro'', '' x '')])"
    by simp
  have l: "label_free ascii_only ''ine''
        (post_process_document_fields ascii_only ''ine''
           [(''nombre'', ''Nombre  Juan Perez''), (''sexo'', ''sexo: mujer''),
            (''domicilio'', ''domicilio: - C 5   de mayo 12''), (''vigencia'', ''2019 - 2029''),
            (''seccion'', ''SECCION 0123''), (''otro'', '' x '')])"
    by code_simp
  show ?thesis
    using unidecode_like_ascii_only d l
      cleaner_idempotent_without_labels [OF unidecode_like_ascii_only d l]
    by (intro conjI)
qed

end
